theory Spec2Isabelle
  imports Main "HOL-Library.Word"
begin

section \<open>JavaScript strings\<close>

text \<open>
  A JavaScript string is a finite sequence of UTF-16 code units. Account identifiers,
  storage keys and stored values are all such strings. \<open>js\<close> embeds an Isabelle string
  literal (8-bit characters) so that the constants of the source can be written down.
\<close>

type_synonym jsstring = "16 word list"

definition js :: "string \<Rightarrow> jsstring" where
  "js s = map (\<lambda>c. of_nat (of_char c)) s"

section \<open>The built-ins \<open>JSON.parse\<close> and \<open>JSON.stringify\<close>\<close>

text \<open>
  The module calls \<open>JSON.parse\<close> on stored strings and \<open>JSON.stringify\<close> on arrays of
  strings. Both are built-ins of the language, modelled here after ECMA-262 (the JSON
  grammar of ECMA-404). A parsed number keeps its lexeme: the module never computes with
  numbers. An object keeps its members in source order.
\<close>

datatype json =
    JNull
  | JBool bool
  | JNumber jsstring
  | JString jsstring
  | JArray "json list"
  | JObject "(jsstring \<times> json) list"

datatype error =
    SyntaxError
  | BackendError
  | OutsideModel

subsection \<open>Lexical analysis\<close>

datatype token =
    TLBrack | TRBrack | TLBrace | TRBrace | TComma | TColon
  | TStr jsstring | TNum jsstring | TTrue | TFalse | TNull

datatype lexmode =
    Idle
  | InStr jsstring
  | InEsc jsstring
  | InHex jsstring "nat list"
  | InNum jsstring
  | InLit jsstring

definition is_ws :: "16 word \<Rightarrow> bool" where
  "is_ws c = (c = 0x20 \<or> c = 0x09 \<or> c = 0x0A \<or> c = 0x0D)"

definition is_digit :: "16 word \<Rightarrow> bool" where
  "is_digit c = (0x30 \<le> c \<and> c \<le> 0x39)"

definition is_lower :: "16 word \<Rightarrow> bool" where
  "is_lower c = (0x61 \<le> c \<and> c \<le> 0x7A)"

definition is_numchar :: "16 word \<Rightarrow> bool" where
  "is_numchar c = (is_digit c \<or> c = 0x2D \<or> c = 0x2B \<or> c = 0x2E \<or> c = 0x65 \<or> c = 0x45)"

text \<open>The number grammar \<open>-? (0 | [1-9][0-9]*) (. [0-9]+)? ([eE] [+-]? [0-9]+)?\<close> as an automaton.\<close>

datatype numstate = NStart | NMinus | NZero | NInt | NDot | NFrac | NE | NESign | NExp

definition num_step :: "numstate \<Rightarrow> 16 word \<Rightarrow> numstate option" where
  "num_step s c =
    (case s of
       NStart \<Rightarrow> if c = 0x2D then Some NMinus else if c = 0x30 then Some NZero
                 else if is_digit c then Some NInt else None
     | NMinus \<Rightarrow> if c = 0x30 then Some NZero else if is_digit c then Some NInt else None
     | NZero \<Rightarrow> if c = 0x2E then Some NDot else if c = 0x65 \<or> c = 0x45 then Some NE else None
     | NInt \<Rightarrow> if is_digit c then Some NInt else if c = 0x2E then Some NDot
               else if c = 0x65 \<or> c = 0x45 then Some NE else None
     | NDot \<Rightarrow> if is_digit c then Some NFrac else None
     | NFrac \<Rightarrow> if is_digit c then Some NFrac
                else if c = 0x65 \<or> c = 0x45 then Some NE else None
     | NE \<Rightarrow> if c = 0x2B \<or> c = 0x2D then Some NESign
             else if is_digit c then Some NExp else None
     | NESign \<Rightarrow> if is_digit c then Some NExp else None
     | NExp \<Rightarrow> if is_digit c then Some NExp else None)"

fun num_run :: "numstate \<Rightarrow> jsstring \<Rightarrow> numstate option" where
  "num_run s [] = Some s"
| "num_run s (c # cs) = (case num_step s c of None \<Rightarrow> None | Some s' \<Rightarrow> num_run s' cs)"

definition is_number :: "jsstring \<Rightarrow> bool" where
  "is_number w =
    (case num_run NStart w of
       Some NZero \<Rightarrow> True | Some NInt \<Rightarrow> True | Some NFrac \<Rightarrow> True | Some NExp \<Rightarrow> True
     | _ \<Rightarrow> False)"

definition close_num :: "jsstring \<Rightarrow> token option" where
  "close_num acc = (if is_number (rev acc) then Some (TNum (rev acc)) else None)"

definition close_lit :: "jsstring \<Rightarrow> token option" where
  "close_lit acc =
    (if rev acc = js ''true'' then Some TTrue
     else if rev acc = js ''false'' then Some TFalse
     else if rev acc = js ''null'' then Some TNull
     else None)"

definition hex_val :: "16 word \<Rightarrow> nat option" where
  "hex_val c =
    (if is_digit c then Some (unat c - 0x30)
     else if 0x61 \<le> c \<and> c \<le> 0x66 then Some (unat c - 0x61 + 10)
     else if 0x41 \<le> c \<and> c \<le> 0x46 then Some (unat c - 0x41 + 10)
     else None)"

definition unescape :: "16 word \<Rightarrow> 16 word option" where
  "unescape c =
    (if c = 0x22 \<or> c = 0x5C \<or> c = 0x2F then Some c
     else if c = 0x62 then Some 0x08
     else if c = 0x66 then Some 0x0C
     else if c = 0x6E then Some 0x0A
     else if c = 0x72 then Some 0x0D
     else if c = 0x74 then Some 0x09
     else None)"

text \<open>A step outside any token: white space is skipped, punctuation is a token, and a
  quote, a digit, a minus sign or a lower-case letter opens a longer token.\<close>

definition idle_step :: "16 word \<Rightarrow> (lexmode \<times> token list) option" where
  "idle_step c =
    (if is_ws c then Some (Idle, [])
     else if c = 0x5B then Some (Idle, [TLBrack])
     else if c = 0x5D then Some (Idle, [TRBrack])
     else if c = 0x7B then Some (Idle, [TLBrace])
     else if c = 0x7D then Some (Idle, [TRBrace])
     else if c = 0x2C then Some (Idle, [TComma])
     else if c = 0x3A then Some (Idle, [TColon])
     else if c = 0x22 then Some (InStr [], [])
     else if c = 0x2D \<or> is_digit c then Some (InNum [c], [])
     else if is_lower c then Some (InLit [c], [])
     else None)"

text \<open>Accumulators hold the characters read so far in reverse. A number or a literal
  ends at the first character that cannot continue it; that character is then read
  again outside the token.\<close>

definition lex_step :: "lexmode \<Rightarrow> 16 word \<Rightarrow> (lexmode \<times> token list) option" where
  "lex_step m c =
    (case m of
       Idle \<Rightarrow> idle_step c
     | InStr acc \<Rightarrow>
         if c = 0x22 then Some (Idle, [TStr (rev acc)])
         else if c = 0x5C then Some (InEsc acc, [])
         else if c < 0x20 then None
         else Some (InStr (c # acc), [])
     | InEsc acc \<Rightarrow>
         if c = 0x75 then Some (InHex acc [], [])
         else (case unescape c of None \<Rightarrow> None | Some d \<Rightarrow> Some (InStr (d # acc), []))
     | InHex acc ds \<Rightarrow>
         (case hex_val c of
            None \<Rightarrow> None
          | Some d \<Rightarrow>
              if length ds = 3
              then Some (InStr (of_nat (foldl (\<lambda>n x. 16 * n + x) 0 (ds @ [d])) # acc), [])
              else Some (InHex acc (ds @ [d]), []))
     | InNum acc \<Rightarrow>
         if is_numchar c then Some (InNum (c # acc), [])
         else (case close_num acc of
                 None \<Rightarrow> None
               | Some t \<Rightarrow> (case idle_step c of
                             None \<Rightarrow> None
                           | Some (m', ts) \<Rightarrow> Some (m', t # ts)))
     | InLit acc \<Rightarrow>
         if is_lower c then Some (InLit (c # acc), [])
         else (case close_lit acc of
                 None \<Rightarrow> None
               | Some t \<Rightarrow> (case idle_step c of
                             None \<Rightarrow> None
                           | Some (m', ts) \<Rightarrow> Some (m', t # ts))))"

definition lex_end :: "lexmode \<Rightarrow> token list option" where
  "lex_end m =
    (case m of
       Idle \<Rightarrow> Some []
     | InNum acc \<Rightarrow> map_option (\<lambda>t. [t]) (close_num acc)
     | InLit acc \<Rightarrow> map_option (\<lambda>t. [t]) (close_lit acc)
     | _ \<Rightarrow> None)"

fun lexer :: "lexmode \<Rightarrow> jsstring \<Rightarrow> token list option" where
  "lexer m [] = lex_end m"
| "lexer m (c # cs) =
    (case lex_step m c of
       None \<Rightarrow> None
     | Some (m', ts) \<Rightarrow> map_option (\<lambda>us. ts @ us) (lexer m' cs))"

subsection \<open>Syntactic analysis\<close>

text \<open>
  The token parser is a pushdown automaton. A frame of the stack is an array or an
  object under construction (elements and members in reverse, and for an object the
  key that waits for its value).
\<close>

datatype frame =
    FArr "json list"
  | FObj "(jsstring \<times> json) list" "jsstring option"

datatype expect =
    ExpValue
  | ExpValueOrClose
  | ExpKeyOrClose
  | ExpKey
  | ExpColon
  | ExpCommaOrClose
  | Done json

text \<open>A finished value goes to the innermost open container, or ends the text.\<close>

fun deliver :: "json \<Rightarrow> frame list \<Rightarrow> (expect \<times> frame list) option" where
  "deliver v [] = Some (Done v, [])"
| "deliver v (FArr es # st) = Some (ExpCommaOrClose, FArr (v # es) # st)"
| "deliver v (FObj ms (Some k) # st) = Some (ExpCommaOrClose, FObj ((k, v) # ms) None # st)"
| "deliver v (FObj ms None # st) = None"

fun scalar :: "token \<Rightarrow> json option" where
  "scalar (TStr s) = Some (JString s)"
| "scalar (TNum w) = Some (JNumber w)"
| "scalar TTrue = Some (JBool True)"
| "scalar TFalse = Some (JBool False)"
| "scalar TNull = Some JNull"
| "scalar _ = None"

definition value_step :: "token \<Rightarrow> frame list \<Rightarrow> (expect \<times> frame list) option" where
  "value_step t st =
    (case t of
       TLBrack \<Rightarrow> Some (ExpValueOrClose, FArr [] # st)
     | TLBrace \<Rightarrow> Some (ExpKeyOrClose, FObj [] None # st)
     | _ \<Rightarrow> (case scalar t of None \<Rightarrow> None | Some v \<Rightarrow> deliver v st))"

definition key_step :: "token \<Rightarrow> frame list \<Rightarrow> (expect \<times> frame list) option" where
  "key_step t st =
    (case (t, st) of
       (TStr k, FObj ms None # st') \<Rightarrow> Some (ExpColon, FObj ms (Some k) # st')
     | _ \<Rightarrow> None)"

definition parse_step :: "expect \<Rightarrow> frame list \<Rightarrow> token \<Rightarrow> (expect \<times> frame list) option" where
  "parse_step e st t =
    (case e of
       ExpValue \<Rightarrow> value_step t st
     | ExpValueOrClose \<Rightarrow>
         (case (t, st) of
            (TRBrack, FArr [] # st') \<Rightarrow> deliver (JArray []) st'
          | _ \<Rightarrow> value_step t st)
     | ExpKeyOrClose \<Rightarrow>
         (case (t, st) of
            (TRBrace, FObj [] None # st') \<Rightarrow> deliver (JObject []) st'
          | _ \<Rightarrow> key_step t st)
     | ExpKey \<Rightarrow> key_step t st
     | ExpColon \<Rightarrow> (case t of TColon \<Rightarrow> Some (ExpValue, st) | _ \<Rightarrow> None)
     | ExpCommaOrClose \<Rightarrow>
         (case (t, st) of
            (TComma, FArr es # st') \<Rightarrow> Some (ExpValue, st)
          | (TRBrack, FArr es # st') \<Rightarrow> deliver (JArray (rev es)) st'
          | (TComma, FObj ms None # st') \<Rightarrow> Some (ExpKey, st)
          | (TRBrace, FObj ms None # st') \<Rightarrow> deliver (JObject (rev ms)) st'
          | _ \<Rightarrow> None)
     | Done v \<Rightarrow> None)"

fun parse_tokens :: "expect \<Rightarrow> frame list \<Rightarrow> token list \<Rightarrow> json option" where
  "parse_tokens e st [] = (case e of Done v \<Rightarrow> Some v | _ \<Rightarrow> None)"
| "parse_tokens e st (t # ts) =
    (case parse_step e st t of
       None \<Rightarrow> None
     | Some (e', st') \<Rightarrow> parse_tokens e' st' ts)"

text \<open>\<open>JSON.parse(text)\<close>: the parsed value, or a \<open>SyntaxError\<close> exception.\<close>

definition JSON_parse :: "jsstring \<Rightarrow> error + json" where
  "JSON_parse s =
    (case lexer Idle s of
       None \<Rightarrow> Inl SyntaxError
     | Some ts \<Rightarrow> (case parse_tokens ExpValue [] ts of
                    None \<Rightarrow> Inl SyntaxError
                  | Some v \<Rightarrow> Inr v))"

subsection \<open>Serialisation of an array of strings\<close>

definition is_high :: "16 word \<Rightarrow> bool" where
  "is_high c = (0xD800 \<le> c \<and> c \<le> 0xDBFF)"

definition is_low :: "16 word \<Rightarrow> bool" where
  "is_low c = (0xDC00 \<le> c \<and> c \<le> 0xDFFF)"

definition hex_digit :: "nat \<Rightarrow> 16 word" where
  "hex_digit d = (if d < 10 then of_nat (0x30 + d) else of_nat (0x61 + (d - 10)))"

definition unicode_escape :: "16 word \<Rightarrow> jsstring" where
  "unicode_escape c =
    [0x5C, 0x75,
     hex_digit (unat c div 4096 mod 16), hex_digit (unat c div 256 mod 16),
     hex_digit (unat c div 16 mod 16), hex_digit (unat c mod 16)]"

text \<open>One code unit that is not part of a surrogate pair, as \<open>QuoteJSONString\<close> writes it.\<close>

definition quote_unit :: "16 word \<Rightarrow> jsstring" where
  "quote_unit c =
    (if c = 0x08 then [0x5C, 0x62]
     else if c = 0x09 then [0x5C, 0x74]
     else if c = 0x0A then [0x5C, 0x6E]
     else if c = 0x0C then [0x5C, 0x66]
     else if c = 0x0D then [0x5C, 0x72]
     else if c = 0x22 then [0x5C, 0x22]
     else if c = 0x5C then [0x5C, 0x5C]
     else if c < 0x20 \<or> is_high c \<or> is_low c then unicode_escape c
     else [c])"

fun quote_units :: "jsstring \<Rightarrow> jsstring" where
  "quote_units [] = []"
| "quote_units [c] = quote_unit c"
| "quote_units (c # d # cs) =
    (if is_high c \<and> is_low d then c # d # quote_units cs
     else quote_unit c @ quote_units (d # cs))"

definition QuoteJSONString :: "jsstring \<Rightarrow> jsstring" where
  "QuoteJSONString s = [0x22] @ quote_units s @ [0x22]"

fun join_comma :: "jsstring list \<Rightarrow> jsstring" where
  "join_comma [] = []"
| "join_comma [s] = s"
| "join_comma (s # t # ss) = s @ [0x2C] @ join_comma (t # ss)"

text \<open>\<open>JSON.stringify(value)\<close> for \<open>value: string[]\<close>.\<close>

definition JSON_stringify :: "jsstring list \<Rightarrow> jsstring" where
  "JSON_stringify xs = [0x5B] @ join_comma (map QuoteJSONString xs) @ [0x5D]"

section \<open>The secret-storage backend\<close>

text \<open>
  Modelled from the spec: the secret-storage backend (the editor's \<open>SecretStorage\<close>),
  whose implementation is not among the source files. The spec gives its interface:
  \<open>get(key)\<close> yields the stored string or absent, \<open>store(key, value)\<close> and
  \<open>delete(key)\<close> yield nothing, and any individual call can fail.

  The state of the backend is the stored strings, the outcomes still to come and the
  calls made so far. \<open>faults\<close> is the schedule of outcomes: its head tells whether the
  next call fails, and an exhausted schedule means that no further call fails. A call
  that fails is recorded in \<open>calls\<close> and leaves the stored strings as they were.
\<close>

datatype call =
    Get jsstring
  | Store jsstring jsstring
  | Delete jsstring

record SecretStorage =
  secrets :: "jsstring \<rightharpoonup> jsstring"
  faults :: "bool list"
  calls :: "call list"

definition fails :: "SecretStorage \<Rightarrow> bool" where
  "fails b = (case faults b of [] \<Rightarrow> False | f # fs \<Rightarrow> f)"

definition called :: "call \<Rightarrow> SecretStorage \<Rightarrow> SecretStorage" where
  "called c b = b\<lparr>faults := tl (faults b), calls := calls b @ [c]\<rparr>"

text \<open>Modelled from the spec: \<open>get(key)\<close> of the backend, the stored string or absent.\<close>

definition secretStorage_get ::
    "jsstring \<Rightarrow> SecretStorage \<Rightarrow> (error + jsstring option) \<times> SecretStorage" where
  "secretStorage_get k b =
    (if fails b then (Inl BackendError, called (Get k) b)
     else (Inr (secrets b k), called (Get k) b))"

text \<open>Modelled from the spec: \<open>store(key, value)\<close> of the backend.\<close>

definition secretStorage_store ::
    "jsstring \<Rightarrow> jsstring \<Rightarrow> SecretStorage \<Rightarrow> (error + unit) \<times> SecretStorage" where
  "secretStorage_store k v b =
    (if fails b then (Inl BackendError, called (Store k v) b)
     else (Inr (), (called (Store k v) b)\<lparr>secrets := (secrets b)(k \<mapsto> v)\<rparr>))"

text \<open>Modelled from the spec: \<open>delete(key)\<close> of the backend.\<close>

definition secretStorage_delete ::
    "jsstring \<Rightarrow> SecretStorage \<Rightarrow> (error + unit) \<times> SecretStorage" where
  "secretStorage_delete k b =
    (if fails b then (Inl BackendError, called (Delete k) b)
     else (Inr (), (called (Delete k) b)\<lparr>secrets := (secrets b)(k := None)\<rparr>))"

section \<open>The access ledger: class \<open>AccountAccessSecretStorage\<close>\<close>

text \<open>
  The ledger holds the backend and the three strings of its scope. An asynchronous
  method is a function from the state before the call to the outcome (\<open>Inl\<close> a thrown
  error, \<open>Inr\<close> the value the promise resolves to) and the state after it; each method is
  followed from its call to its completion with no other operation on the backend in
  between.
\<close>

record AccountAccessSecretStorage =
  secretStorage :: SecretStorage
  cloudName :: jsstring
  clientId :: jsstring
  authority :: jsstring

definition legacyKey :: "AccountAccessSecretStorage \<Rightarrow> jsstring" where
  "legacyKey l =
    js ''accounts-'' @ cloudName l @ js ''-'' @ clientId l @ js ''-'' @ authority l"

definition key :: "AccountAccessSecretStorage \<Rightarrow> jsstring" where
  "key l = js ''accounts-'' @ cloudName l"

text \<open>The test \<open>if (value)\<close> on \<open>string | undefined\<close>: the string, when there is one and
  it is not empty.\<close>

definition truthy :: "jsstring option \<Rightarrow> jsstring option" where
  "truthy v = (case v of None \<Rightarrow> None | Some s \<Rightarrow> if s = [] then None else Some s)"

text \<open>\<open>get()\<close>. The result \<open>None\<close> is \<open>undefined\<close>. The value of \<open>JSON.parse\<close> is returned as
  it is: the declared type \<open>string[]\<close> is not checked when the program runs.\<close>

definition get ::
    "AccountAccessSecretStorage \<Rightarrow> (error + json option) \<times> AccountAccessSecretStorage" where
  "get l =
    (case secretStorage_get (key l) (secretStorage l) of
       (Inl e, b1) \<Rightarrow> (Inl e, l\<lparr>secretStorage := b1\<rparr>)
     | (Inr v, b1) \<Rightarrow>
         (case truthy v of
            Some s \<Rightarrow>
              (case JSON_parse s of
                 Inl e \<Rightarrow> (Inl e, l\<lparr>secretStorage := b1\<rparr>)
               | Inr parsed \<Rightarrow> (Inr (Some parsed), l\<lparr>secretStorage := b1\<rparr>))
          | None \<Rightarrow>
              (case secretStorage_get (legacyKey l) b1 of
                 (Inl e, b2) \<Rightarrow> (Inl e, l\<lparr>secretStorage := b2\<rparr>)
               | (Inr legacyValue, b2) \<Rightarrow>
                   (case truthy legacyValue of
                      Some s \<Rightarrow>
                        (case JSON_parse s of
                           Inl e \<Rightarrow> (Inl e, l\<lparr>secretStorage := b2\<rparr>)
                         | Inr parsedValue \<Rightarrow>
                             (case secretStorage_store (key l) s b2 of
                                (Inl e, b3) \<Rightarrow> (Inl e, l\<lparr>secretStorage := b3\<rparr>)
                              | (Inr u, b3) \<Rightarrow>
                                  (Inr (Some parsedValue), l\<lparr>secretStorage := b3\<rparr>)))
                    | None \<Rightarrow> (Inr None, l\<lparr>secretStorage := b2\<rparr>)))))"

text \<open>\<open>Promise.all\<close> of two promises that are both already started: it fails when one
  of them fails.\<close>

definition Promise_all :: "error + unit \<Rightarrow> error + unit \<Rightarrow> error + unit" where
  "Promise_all r1 r2 =
    (case r1 of Inl e \<Rightarrow> Inl e | Inr u \<Rightarrow> (case r2 of Inl e \<Rightarrow> Inl e | Inr u' \<Rightarrow> Inr ()))"

text \<open>\<open>store(value)\<close>: both writes are issued, whatever the outcome of the other.\<close>

definition store ::
    "AccountAccessSecretStorage \<Rightarrow> jsstring list \<Rightarrow> (error + unit) \<times> AccountAccessSecretStorage" where
  "store l v =
    (let stringified = JSON_stringify v;
         (r1, b1) = secretStorage_store (key l) stringified (secretStorage l);
         (r2, b2) = secretStorage_store (legacyKey l) stringified b1
     in (Promise_all r1 r2, l\<lparr>secretStorage := b2\<rparr>))"

text \<open>\<open>delete()\<close>.\<close>

definition delete ::
    "AccountAccessSecretStorage \<Rightarrow> (error + unit) \<times> AccountAccessSecretStorage" where
  "delete l =
    (let (r1, b1) = secretStorage_delete (key l) (secretStorage l);
         (r2, b2) = secretStorage_delete (legacyKey l) b1
     in (Promise_all r1 r2, l\<lparr>secretStorage := b2\<rparr>))"

text \<open>The listener on the backend's change stream: the ledger fires its own event for
  a change of either key.\<close>

definition onDidChange :: "AccountAccessSecretStorage \<Rightarrow> jsstring \<Rightarrow> bool" where
  "onDidChange l k = (k = key l \<or> k = legacyKey l)"

section \<open>The access registry: class \<open>ScopedAccountAccess\<close>\<close>

text \<open>Of an account only the field \<open>homeAccountId\<close> is read.\<close>

record AccountInfo =
  homeAccountId :: jsstring

text \<open>
  The registry holds its ledger and the cached list (the field \<open>value\<close> of the source).
  \<open>fired\<close> counts how often \<open>_onDidAccountAccessChangeEmitter.fire()\<close> has run.
\<close>

record ScopedAccountAccess =
  accountAccessSecretStorage :: AccountAccessSecretStorage
  this_value :: "jsstring list"
  fired :: nat



definition setAllowedAccess ::
    "ScopedAccountAccess \<Rightarrow> AccountInfo \<Rightarrow> bool \<Rightarrow> (error + unit) \<times> ScopedAccountAccess" where
  "setAllowedAccess r account allowed =
    (if allowed then
       (if homeAccountId account \<in> set (this_value r) then (Inr (), r)
        else
          (case store (accountAccessSecretStorage r) (this_value r @ [homeAccountId account]) of
             (res, l') \<Rightarrow> (res, r\<lparr>accountAccessSecretStorage := l'\<rparr>)))
     else
       (let newValue = filter (\<lambda>id. id \<noteq> homeAccountId account) (this_value r) in
        if length newValue = length (this_value r) then (Inr (), r)
        else if length newValue \<noteq> 0 then
          (case store (accountAccessSecretStorage r) newValue of
             (res, l') \<Rightarrow> (res, r\<lparr>accountAccessSecretStorage := l'\<rparr>))
        else
          (case delete (accountAccessSecretStorage r) of
             (res, l') \<Rightarrow> (res, r\<lparr>accountAccessSecretStorage := l'\<rparr>))))"

text \<open>
  The value that \<open>update\<close> assigns to the cache, \<open>value ?? []\<close>, read at the declared type:
  \<open>undefined\<close> and \<open>null\<close> give the empty list, an array of strings gives its elements.
  For any other parsed value the answer is \<open>None\<close>: the program then goes on with a
  cache that is not a list of strings, which the typed state of this model cannot hold.
\<close>

fun string_of :: "json \<Rightarrow> jsstring option" where
  "string_of (JString s) = Some s"
| "string_of _ = None"

fun strings_of :: "json list \<Rightarrow> jsstring list option" where
  "strings_of [] = Some []"
| "strings_of (v # vs) =
    (case string_of v of
       None \<Rightarrow> None
     | Some s \<Rightarrow> (case strings_of vs of None \<Rightarrow> None | Some ss \<Rightarrow> Some (s # ss)))"

fun nullish_list :: "json option \<Rightarrow> jsstring list option" where
  "nullish_list None = Some []"
| "nullish_list (Some JNull) = Some []"
| "nullish_list (Some (JArray vs)) = strings_of vs"
| "nullish_list (Some _) = None"

text \<open>\<open>update()\<close>. \<open>current\<close> is a \<open>Set\<close>, so \<open>current.size\<close> counts the distinct cached
  identifiers. A failure of \<open>get()\<close> leaves the cache as it was and fires nothing. The
  outcome \<open>OutsideModel\<close> marks the executions described above.\<close>

definition update :: "ScopedAccountAccess \<Rightarrow> (error + unit) \<times> ScopedAccountAccess" where
  "update r =
    (let current = set (this_value r) in
     case get (accountAccessSecretStorage r) of
       (Inl e, l') \<Rightarrow> (Inl e, r\<lparr>accountAccessSecretStorage := l'\<rparr>)
     | (Inr v, l') \<Rightarrow>
         (case nullish_list v of
            None \<Rightarrow> (Inl OutsideModel, r\<lparr>accountAccessSecretStorage := l'\<rparr>)
          | Some new_value \<Rightarrow>
              (let r' = r\<lparr>accountAccessSecretStorage := l', this_value := new_value\<rparr> in
               if card current \<noteq> length new_value \<or> \<not> list_all (\<lambda>id. id \<in> current) new_value
               then (Inr (), r'\<lparr>fired := fired r' + 1\<rparr>)
               else (Inr (), r'))))"

definition initialize :: "ScopedAccountAccess \<Rightarrow> (error + unit) \<times> ScopedAccountAccess" where
  "initialize r = update r"

section \<open>Vocabulary of the statements\<close>

text \<open>\<open>succeeds n b\<close>: none of the next \<open>n\<close> calls to the backend \<open>b\<close> fails.\<close>

definition succeeds :: "nat \<Rightarrow> SecretStorage \<Rightarrow> bool" where
  "succeeds n b = (True \<notin> set (take n (faults b)))"

text \<open>\<open>new_calls b b'\<close>: the calls made on the way from the backend state \<open>b\<close> to \<open>b'\<close>.\<close>

definition new_calls :: "SecretStorage \<Rightarrow> SecretStorage \<Rightarrow> call list" where
  "new_calls b b' = drop (length (calls b)) (calls b')"

text \<open>The backend behind a registry.\<close>

definition backend :: "ScopedAccountAccess \<Rightarrow> SecretStorage" where
  "backend r = secretStorage (accountAccessSecretStorage r)"

text \<open>Concrete states for the scope \<open>(c, i, a)\<close>, whose keys are \<open>accounts-c\<close> and
  \<open>accounts-c-i-a\<close>.\<close>

definition example_backend :: "(jsstring \<times> jsstring) list \<Rightarrow> bool list \<Rightarrow> SecretStorage" where
  "example_backend kvs fs = \<lparr>secrets = map_of kvs, faults = fs, calls = []\<rparr>"

definition example_ledger :: "SecretStorage \<Rightarrow> AccountAccessSecretStorage" where
  "example_ledger b =
    \<lparr>secretStorage = b, cloudName = js ''c'', clientId = js ''i'', authority = js ''a''\<rparr>"

definition example_registry :: "SecretStorage \<Rightarrow> jsstring list \<Rightarrow> ScopedAccountAccess" where
  "example_registry b xs =
    \<lparr>accountAccessSecretStorage = example_ledger b, this_value = xs, fired = 0\<rparr>"

definition account :: "string \<Rightarrow> AccountInfo" where
  "account s = \<lparr>homeAccountId = js s\<rparr>"

text \<open>The backend after the two reads of \<open>get()\<close>.\<close>

definition after_gets :: "AccountAccessSecretStorage \<Rightarrow> SecretStorage" where
  "after_gets l = called (Get (legacyKey l)) (called (Get (key l)) (secretStorage l))"

text \<open>The tokens of a serialised array after its first element.\<close>

fun array_tail :: "jsstring list \<Rightarrow> token list" where
  "array_tail [] = [TRBrack]"
| "array_tail (x # xs) = TComma # TStr x # array_tail xs"

section \<open>Basic facts\<close>

subsection \<open>Keys\<close>

text \<open>The legacy key is the current key followed by a non-empty suffix.\<close>

lemma key_neq_legacyKey: "key l \<noteq> legacyKey l"
  by (simp add: key_def legacyKey_def js_def)

lemma key_update [simp]: "key (l\<lparr>secretStorage := b\<rparr>) = key l"
  by (simp add: key_def)

lemma legacyKey_update [simp]: "legacyKey (l\<lparr>secretStorage := b\<rparr>) = legacyKey l"
  by (simp add: legacyKey_def)

lemma example_key: "key (example_ledger b) = js ''accounts-c''"
  by (simp add: key_def example_ledger_def js_def)

lemma example_legacyKey: "legacyKey (example_ledger b) = js ''accounts-c-i-a''"
  by (simp add: legacyKey_def example_ledger_def js_def)

lemma example_keys_differ: "js ''accounts-c'' \<noteq> js ''accounts-c-i-a''"
  by (simp add: js_def)

subsection \<open>The backend\<close>

lemma secrets_called [simp]: "secrets (called c b) = secrets b"
  by (simp add: called_def)

lemma calls_called [simp]: "calls (called c b) = calls b @ [c]"
  by (simp add: called_def)

lemma fails_secrets [simp]: "fails (b\<lparr>secrets := m\<rparr>) = fails b"
  by (simp add: fails_def)

lemma succeeds_0 [simp]: "succeeds 0 b"
  by (simp add: succeeds_def)

lemma succeeds_Suc: "succeeds (Suc n) b \<longleftrightarrow> \<not> fails b \<and> succeeds n (called c b)"
  by (cases "faults b") (auto simp: succeeds_def fails_def called_def)

lemma succeeds_1: "succeeds 1 b \<longleftrightarrow> \<not> fails b"
  using succeeds_Suc [of 0 b] by simp

lemma succeeds_2: "succeeds 2 b \<longleftrightarrow> \<not> fails b \<and> \<not> fails (called c b)"
  by (simp add: numeral_2_eq_2 succeeds_Suc [where c = c] succeeds_Suc [where c = d])

lemma succeeds_3:
  "succeeds 3 b \<longleftrightarrow> \<not> fails b \<and> \<not> fails (called c b) \<and> \<not> fails (called d (called c b))"
proof -
  have "succeeds 3 b \<longleftrightarrow> \<not> fails b \<and> succeeds 2 (called c b)"
    using succeeds_Suc [of 2 b c] by (simp add: numeral_3_eq_3 numeral_2_eq_2)
  then show ?thesis
    by (simp add: succeeds_2 [where c = d])
qed

lemma succeeds_example [simp]: "succeeds n (example_backend kvs [])"
  by (simp add: succeeds_def example_backend_def)

lemma new_calls_simps [simp]:
  "new_calls b b = []"
  "new_calls b (called c b) = [c]"
  "new_calls b (called d (called c b)) = [c, d]"
  "new_calls b (called e (called d (called c b))) = [c, d, e]"
  "new_calls b (b'\<lparr>secrets := m\<rparr>) = new_calls b b'"
  by (simp_all add: new_calls_def)

subsection \<open>Evaluations of the built-ins\<close>

lemma truthy_simps [simp]:
  "truthy None = None"
  "truthy (Some []) = None"
  "s \<noteq> [] \<Longrightarrow> truthy (Some s) = Some s"
  by (simp_all add: truthy_def)

lemma parse_empty: "JSON_parse [] = Inl SyntaxError"
  by (simp add: JSON_parse_def lex_end_def)

lemma parse_X: "JSON_parse (js ''[\"X\"]'') = Inr (JArray [JString (js ''X'')])"
  by code_simp

lemma stringify_X: "JSON_stringify [js ''X''] = js ''[\"X\"]''"
  by code_simp

lemma strings_of_JString: "strings_of (map JString xs) = Some xs"
  by (induction xs) simp_all

subsection \<open>\<open>get()\<close>, path by path\<close>

lemma get_backend_failure:
  assumes "fails (secretStorage l)"
  shows "get l = (Inl BackendError, l\<lparr>secretStorage := called (Get (key l)) (secretStorage l)\<rparr>)"
  using assms by (simp add: get_def secretStorage_get_def)

lemma get_current:
  assumes "\<not> fails (secretStorage l)"
    and "truthy (secrets (secretStorage l) (key l)) = Some s"
  shows "get l =
    ((case JSON_parse s of Inl e \<Rightarrow> Inl e | Inr parsed \<Rightarrow> Inr (Some parsed)),
     l\<lparr>secretStorage := called (Get (key l)) (secretStorage l)\<rparr>)"
  using assms by (simp add: get_def secretStorage_get_def split: sum.split)

lemma get_legacy_failure:
  assumes "\<not> fails (secretStorage l)"
    and "truthy (secrets (secretStorage l) (key l)) = None"
    and "fails (called (Get (key l)) (secretStorage l))"
  shows "get l = (Inl BackendError, l\<lparr>secretStorage := after_gets l\<rparr>)"
  using assms by (simp add: get_def secretStorage_get_def after_gets_def)

lemma get_absent:
  assumes "\<not> fails (secretStorage l)"
    and "truthy (secrets (secretStorage l) (key l)) = None"
    and "\<not> fails (called (Get (key l)) (secretStorage l))"
    and "truthy (secrets (secretStorage l) (legacyKey l)) = None"
  shows "get l = (Inr None, l\<lparr>secretStorage := after_gets l\<rparr>)"
  using assms by (simp add: get_def secretStorage_get_def after_gets_def)

lemma get_legacy:
  assumes "\<not> fails (secretStorage l)"
    and "truthy (secrets (secretStorage l) (key l)) = None"
    and "\<not> fails (called (Get (key l)) (secretStorage l))"
    and "truthy (secrets (secretStorage l) (legacyKey l)) = Some s"
  shows "get l =
    (case JSON_parse s of
       Inl e \<Rightarrow> (Inl e, l\<lparr>secretStorage := after_gets l\<rparr>)
     | Inr parsed \<Rightarrow>
         if fails (after_gets l)
         then (Inl BackendError, l\<lparr>secretStorage := called (Store (key l) s) (after_gets l)\<rparr>)
         else (Inr (Some parsed),
               l\<lparr>secretStorage := (called (Store (key l) s) (after_gets l))
                    \<lparr>secrets := (secrets (secretStorage l))(key l \<mapsto> s)\<rparr>\<rparr>))"
  using assms
  by (simp add: get_def secretStorage_get_def secretStorage_store_def after_gets_def
      split: sum.split)

lemma fails_schedule:
  "faults b = f # fs \<Longrightarrow> fails b = f"
  "faults b = f # g # fs \<Longrightarrow> fails (called c b) = g"
  "faults b = f # g # h # fs \<Longrightarrow> fails (called d (called c b)) = h"
  by (simp_all add: fails_def called_def)

lemma called_secrets [simp]: "called c (b\<lparr>secrets := m\<rparr>) = (called c b)\<lparr>secrets := m\<rparr>"
  by (simp add: called_def)

subsection \<open>\<open>store()\<close> and \<open>delete()\<close>\<close>

lemma store_scope [simp]:
  "key (snd (store l v)) = key l" "legacyKey (snd (store l v)) = legacyKey l"
  by (simp_all add: store_def Let_def split: prod.split)

lemma delete_scope [simp]:
  "key (snd (delete l)) = key l" "legacyKey (snd (delete l)) = legacyKey l"
  by (simp_all add: delete_def Let_def split: prod.split)

lemma store_calls:
  "new_calls (secretStorage l) (secretStorage (snd (store l v)))
    = [Store (key l) (JSON_stringify v), Store (legacyKey l) (JSON_stringify v)]"
  by (simp add: store_def secretStorage_store_def Let_def)

lemma delete_calls:
  "new_calls (secretStorage l) (secretStorage (snd (delete l)))
    = [Delete (key l), Delete (legacyKey l)]"
  by (simp add: delete_def secretStorage_delete_def Let_def)

lemma store_success:
  assumes "fst (store l v) = Inr ()"
  shows "secrets (secretStorage (snd (store l v)))
    = (secrets (secretStorage l))(key l \<mapsto> JSON_stringify v, legacyKey l \<mapsto> JSON_stringify v)"
  using assms
  by (simp add: store_def secretStorage_store_def Let_def Promise_all_def split: if_splits)

lemma delete_success:
  assumes "fst (delete l) = Inr ()"
  shows "secrets (secretStorage (snd (delete l)))
    = (secrets (secretStorage l))(key l := None, legacyKey l := None)"
  using assms
  by (simp add: delete_def secretStorage_delete_def Let_def Promise_all_def split: if_splits)

subsection \<open>\<open>setAllowedAccess()\<close>, path by path\<close>

lemma filter_length_eq: "length (filter P xs) = length xs \<longleftrightarrow> filter P xs = xs"
proof
  assume "length (filter P xs) = length xs"
  then show "filter P xs = xs"
  proof (induction xs)
    case Nil
    then show ?case by simp
  next
    case (Cons x xs)
    have "length (filter P xs) \<noteq> Suc (length xs)"
      using length_filter_le [of P xs] by arith
    with Cons show ?case
      by (auto split: if_splits)
  qed
qed simp

lemma deny_filter_unchanged:
  "length (filter (\<lambda>id. id \<noteq> x) xs) = length xs \<longleftrightarrow> x \<notin> set xs"
  by (auto simp: filter_length_eq filter_id_conv)

lemma only_member_iff:
  "set xs = {x} \<longleftrightarrow> xs \<noteq> [] \<and> filter (\<lambda>id. id \<noteq> x) xs = []"
  by (cases xs) (auto simp: filter_empty_conv)

lemma allow_present:
  "homeAccountId a \<in> set (this_value r) \<Longrightarrow> setAllowedAccess r a True = (Inr (), r)"
  by (simp add: setAllowedAccess_def)

lemma allow_absent:
  "homeAccountId a \<notin> set (this_value r) \<Longrightarrow>
    setAllowedAccess r a True =
      (fst (store (accountAccessSecretStorage r) (this_value r @ [homeAccountId a])),
       r\<lparr>accountAccessSecretStorage :=
           snd (store (accountAccessSecretStorage r) (this_value r @ [homeAccountId a]))\<rparr>)"
  by (simp add: setAllowedAccess_def split: prod.split)

lemma deny_absent:
  "homeAccountId a \<notin> set (this_value r) \<Longrightarrow> setAllowedAccess r a False = (Inr (), r)"
  by (simp add: setAllowedAccess_def deny_filter_unchanged)

lemma deny_some_left:
  "homeAccountId a \<in> set (this_value r) \<Longrightarrow>
   filter (\<lambda>id. id \<noteq> homeAccountId a) (this_value r) \<noteq> [] \<Longrightarrow>
    setAllowedAccess r a False =
      (fst (store (accountAccessSecretStorage r)
             (filter (\<lambda>id. id \<noteq> homeAccountId a) (this_value r))),
       r\<lparr>accountAccessSecretStorage :=
           snd (store (accountAccessSecretStorage r)
             (filter (\<lambda>id. id \<noteq> homeAccountId a) (this_value r)))\<rparr>)"
  by (simp add: setAllowedAccess_def deny_filter_unchanged Let_def split: prod.split)

lemma deny_none_left:
  "homeAccountId a \<in> set (this_value r) \<Longrightarrow>
   filter (\<lambda>id. id \<noteq> homeAccountId a) (this_value r) = [] \<Longrightarrow>
    setAllowedAccess r a False =
      (fst (delete (accountAccessSecretStorage r)),
       r\<lparr>accountAccessSecretStorage := snd (delete (accountAccessSecretStorage r))\<rparr>)"
  by (auto simp add: setAllowedAccess_def deny_filter_unchanged Let_def split: prod.split)

lemma setAllowedAccess_cache [simp]:
  "this_value (snd (setAllowedAccess r a allowed)) = this_value r"
  by (simp add: setAllowedAccess_def Let_def split: prod.split)

lemma backend_simps [simp]:
  "backend (r\<lparr>accountAccessSecretStorage := l\<rparr>) = secretStorage l"
  by (simp add: backend_def)

lemma setAllowedAccess_stores:
  assumes "Store k s \<in> set (new_calls (backend r) (backend (snd (setAllowedAccess r a allowed))))"
  shows "s = JSON_stringify (if allowed then this_value r @ [homeAccountId a]
            else filter (\<lambda>id. id \<noteq> homeAccountId a) (this_value r))
    \<and> (if allowed then homeAccountId a \<notin> set (this_value r)
        else homeAccountId a \<in> set (this_value r)
          \<and> filter (\<lambda>id. id \<noteq> homeAccountId a) (this_value r) \<noteq> [])"
proof (cases allowed)
  case True
  show ?thesis
  proof (cases "homeAccountId a \<in> set (this_value r)")
    case present: True
    with True assms show ?thesis
      by (simp add: allow_present)
  next
    case False
    with True assms show ?thesis
      by (auto simp add: allow_absent backend_def store_calls)
  qed
next
  case False
  show ?thesis
  proof (cases "homeAccountId a \<in> set (this_value r)")
    case absent: False
    with False assms show ?thesis
      by (simp add: deny_absent)
  next
    case True
    show ?thesis
    proof (cases "filter (\<lambda>id. id \<noteq> homeAccountId a) (this_value r) = []")
      case True
      with \<open>homeAccountId a \<in> set (this_value r)\<close> \<open>\<not> allowed\<close> assms show ?thesis
        by (simp add: deny_none_left backend_def delete_calls)
    next
      case False
      with \<open>homeAccountId a \<in> set (this_value r)\<close> \<open>\<not> allowed\<close> assms show ?thesis
        by (auto simp add: deny_some_left backend_def store_calls)
    qed
  qed
qed

subsection \<open>\<open>update()\<close>\<close>

lemma update_get_failure:
  assumes "fst (get (accountAccessSecretStorage r)) = Inl e"
  shows "fst (update r) = Inl e \<and> this_value (snd (update r)) = this_value r
    \<and> fired (snd (update r)) = fired r"
  using assms by (cases "get (accountAccessSecretStorage r)") (simp add: update_def)

lemma update_result:
  assumes "get (accountAccessSecretStorage r) = (Inr v, l')" and "nullish_list v = Some new_value"
  shows "update r =
    (Inr (),
     r\<lparr>accountAccessSecretStorage := l', this_value := new_value,
        fired := (if card (set (this_value r)) = length new_value
                    \<and> set new_value \<subseteq> set (this_value r)
                  then fired r else fired r + 1)\<rparr>)"
  using assms by (auto simp add: update_def Let_def list_all_iff)

subsection \<open>Serialisation, and reading a serialised list back\<close>

lemma stringify_nonempty: "JSON_stringify (x # xs) \<noteq> JSON_stringify []"
  by (cases xs) (simp_all add: JSON_stringify_def QuoteJSONString_def)

lemma stringify_not_empty: "JSON_stringify xs \<noteq> []"
  by (simp add: JSON_stringify_def)

lemma count_list_append_absent: "x \<notin> set xs \<Longrightarrow> count_list (xs @ [x]) x = 1"
  by (induction xs) auto

lemma unat_hex_digit:
  assumes "d < 16"
  shows "unat (hex_digit d) = (if d < 10 then 48 + d else 87 + d)"
proof (cases "d < 10")
  case True
  have "unat (of_nat (0x30 + d) :: 16 word) = 0x30 + d"
    by (rule of_nat_inverse [OF refl]) (use True in simp)
  with True show ?thesis
    by (simp only: hex_digit_def if_True)
next
  case False
  have "unat (of_nat (0x61 + (d - 10)) :: 16 word) = 0x61 + (d - 10)"
    by (rule of_nat_inverse [OF refl]) (use assms in simp)
  moreover have "0x61 + (d - 10) = 87 + d"
    using False by simp
  ultimately show ?thesis
    using False by (simp only: hex_digit_def if_False)
qed

lemma hex_val_unat:
  "hex_val c =
    (if 48 \<le> unat c \<and> unat c \<le> 57 then Some (unat c - 48)
     else if 97 \<le> unat c \<and> unat c \<le> 102 then Some (unat c - 87)
     else if 65 \<le> unat c \<and> unat c \<le> 70 then Some (unat c - 55)
     else None)"
  by (simp add: hex_val_def is_digit_def word_le_nat_alt)

lemma hex_val_hex_digit: "d < 16 \<Longrightarrow> hex_val (hex_digit d) = Some d"
  by (simp add: hex_val_unat unat_hex_digit)

lemma hex_digits_value:
  assumes "n < 65536"
  shows "16 * (16 * (16 * (n div 4096 mod 16) + n div 256 mod 16) + n div 16 mod 16) + n mod 16
    = (n::nat)"
proof -
  define q1 q2 q3 where "q1 = n div 16" and "q2 = q1 div 16" and "q3 = q2 div 16"
  have d2: "n div 256 = q2"
    unfolding q2_def q1_def by (simp add: div_mult2_eq)
  have d3: "n div 4096 = q3"
    unfolding q3_def q2_def q1_def by (simp add: div_mult2_eq)
  have "q3 < 16"
    using assms unfolding d3 [symmetric] by (simp add: less_mult_imp_div_less)
  then have m3: "q3 mod 16 = q3"
    by simp
  have e1: "16 * q1 + n mod 16 = n"
    unfolding q1_def by (rule mult_div_mod_eq)
  have e2: "16 * q2 + q1 mod 16 = q1"
    unfolding q2_def by (rule mult_div_mod_eq)
  have e3: "16 * q3 + q2 mod 16 = q2"
    unfolding q3_def by (rule mult_div_mod_eq)
  have "16 * (16 * (16 * (q3 mod 16) + q2 mod 16) + q1 mod 16) + n mod 16 = n"
    by (simp only: m3 e3 e2 e1)
  then show ?thesis
    by (simp only: d2 d3 q1_def [symmetric])
qed

lemma map_option_append_Nil [simp]: "map_option ((@) []) x = x"
  by (cases x) simp_all

lemma of_nat_hex_digits:
  "(of_nat (16 * (16 * (16 * (unat c div 4096 mod 16) + unat c div 256 mod 16)
      + unat c div 16 mod 16) + unat c mod 16) :: 16 word) = c"
proof -
  have n: "unat c < 65536"
    using unsigned_less [of c] by simp
  have "(of_nat (unat c) :: 16 word) = c"
    by simp
  then show ?thesis
    by (simp only: hex_digits_value [OF n])
qed

lemma lex_unicode_escape:
  "lexer (InStr acc) (unicode_escape c @ rest) = lexer (InStr (c # acc)) rest"
  using of_nat_hex_digits [of c]
  by (simp add: unicode_escape_def lex_step_def hex_val_hex_digit)

lemma lex_quote_unit:
  "lexer (InStr acc) (quote_unit c @ rest) = lexer (InStr (c # acc)) rest"
proof (cases "c < 0x20 \<or> is_high c \<or> is_low c")
  case True
  then show ?thesis
    by (auto simp add: quote_unit_def lex_unicode_escape)
       (simp_all add: lex_step_def unescape_def)
next
  case False
  then show ?thesis
    by (auto simp add: quote_unit_def lex_step_def unescape_def)
qed

lemma map_option_append_single [simp]: "map_option ((@) [t]) x = map_option ((#) t) x"
  by (cases x) simp_all

lemma lex_surrogate_pair:
  assumes "is_high c" and "is_low d"
  shows "lexer (InStr acc) (c # d # rest) = lexer (InStr (d # c # acc)) rest"
proof -
  have "c \<noteq> 0x22" "c \<noteq> 0x5C" "\<not> c < 0x20" "d \<noteq> 0x22" "d \<noteq> 0x5C" "\<not> d < 0x20"
    using assms by (auto simp: is_high_def is_low_def word_le_nat_alt word_less_nat_alt)
  then show ?thesis
    by (simp add: lex_step_def)
qed

lemma lex_quote_units:
  "lexer (InStr acc) (quote_units s @ rest) = lexer (InStr (rev s @ acc)) rest"
proof (induction s arbitrary: acc rule: quote_units.induct)
  case 1
  then show ?case by simp
next
  case (2 c)
  then show ?case by (simp add: lex_quote_unit)
next
  case (3 c d cs)
  show ?case
  proof (cases "is_high c \<and> is_low d")
    case True
    have "quote_units (c # d # cs) = c # d # quote_units cs"
      by (simp only: quote_units.simps(3) if_P [OF True])
    then have "lexer (InStr acc) (quote_units (c # d # cs) @ rest)
        = lexer (InStr acc) (c # d # quote_units cs @ rest)"
      by (simp only: append_Cons)
    also have "\<dots> = lexer (InStr (d # c # acc)) (quote_units cs @ rest)"
      using True by (simp only: lex_surrogate_pair)
    also have "\<dots> = lexer (InStr (rev cs @ d # c # acc)) rest"
      using True by (rule "3.IH"(1))
    finally show ?thesis
      by simp
  next
    case False
    have "quote_units (c # d # cs) = quote_unit c @ quote_units (d # cs)"
      by (simp only: quote_units.simps(3) if_not_P [OF False])
    then have "lexer (InStr acc) (quote_units (c # d # cs) @ rest)
        = lexer (InStr acc) (quote_unit c @ quote_units (d # cs) @ rest)"
      by (simp only: append_assoc)
    also have "\<dots> = lexer (InStr (c # acc)) (quote_units (d # cs) @ rest)"
      by (rule lex_quote_unit)
    also have "\<dots> = lexer (InStr (rev (d # cs) @ c # acc)) rest"
      using False by (intro "3.IH"(2)) simp
    finally show ?thesis
      by simp
  qed
qed

lemma lex_QuoteJSONString:
  "lexer Idle (QuoteJSONString s @ rest) = map_option (\<lambda>us. TStr s # us) (lexer Idle rest)"
  by (simp add: QuoteJSONString_def lex_step_def idle_step_def is_ws_def lex_quote_units)

lemma lex_join_comma:
  "lexer Idle (join_comma (map QuoteJSONString (x # xs)) @ [0x5D]) = Some (TStr x # array_tail xs)"
proof (induction xs arbitrary: x)
  case Nil
  show ?case
    using lex_QuoteJSONString [of x "[0x5D]"]
    by (simp add: lex_step_def idle_step_def is_ws_def lex_end_def)
next
  case (Cons y ys)
  have "lexer Idle (QuoteJSONString x @ 0x2C # join_comma (map QuoteJSONString (y # ys)) @ [0x5D])
    = map_option (\<lambda>us. TStr x # us)
        (lexer Idle (0x2C # join_comma (map QuoteJSONString (y # ys)) @ [0x5D]))"
    by (rule lex_QuoteJSONString)
  also have "lexer Idle (0x2C # join_comma (map QuoteJSONString (y # ys)) @ [0x5D])
    = Some (TComma # TStr y # array_tail ys)"
    using Cons [of y] by (simp add: lex_step_def idle_step_def is_ws_def)
  finally show ?case
    by simp
qed

lemma parse_array_tail:
  "parse_tokens ExpCommaOrClose [FArr es] (array_tail xs) = Some (JArray (rev es @ map JString xs))"
  by (induction xs arbitrary: es) (simp_all add: parse_step_def value_step_def)

lemma parse_stringify: "JSON_parse (JSON_stringify xs) = Inr (JArray (map JString xs))"
proof (cases xs)
  case Nil
  then show ?thesis
    by (simp add: JSON_parse_def JSON_stringify_def lex_step_def idle_step_def is_ws_def
        lex_end_def parse_step_def value_step_def)
next
  case (Cons y ys)
  have "lexer Idle (JSON_stringify xs) = Some (TLBrack # TStr y # array_tail ys)"
    using lex_join_comma [of y ys]
    by (simp add: Cons JSON_stringify_def lex_step_def idle_step_def is_ws_def)
  moreover have "parse_tokens ExpValue [] (TLBrack # TStr y # array_tail ys)
      = Some (JArray (map JString xs))"
    using parse_array_tail [of "[JString y]" ys]
    by (simp add: Cons parse_step_def value_step_def)
  ultimately show ?thesis
    by (simp add: JSON_parse_def)
qed

section \<open>The claims\<close>

subsection \<open>C1: a failing forward-migration write\<close>

text \<open>
  C1, as amended. The forward-migration write of \<open>get()\<close> is awaited. When the current
  key is absent, the legacy key holds a string that parses, the two reads succeed and
  the write to the current key fails, \<open>get()\<close> fails with that backend error and does not
  return the legacy value. Its calls were the two reads and the write, and the backend
  holds what it held before; so a later \<open>get()\<close> whose three calls succeed returns the
  legacy value and populates the current key.
\<close>

theorem get_migration_write_failure:
  assumes "secrets (secretStorage l) (key l) = None"
    and "secrets (secretStorage l) (legacyKey l) = Some s"
    and "JSON_parse s = Inr parsed"
    and "faults (secretStorage l) = False # False # True # fs"
  shows "fst (get l) = Inl BackendError
    \<and> new_calls (secretStorage l) (secretStorage (snd (get l)))
        = [Get (key l), Get (legacyKey l), Store (key l) s]
    \<and> secrets (secretStorage (snd (get l))) = secrets (secretStorage l)
    \<and> (succeeds 3 (secretStorage (snd (get l))) \<longrightarrow>
          fst (get (snd (get l))) = Inr (Some parsed)
        \<and> secrets (secretStorage (snd (get (snd (get l))))) (key l) = Some s)"
proof -
  from assms(3) have ne: "s \<noteq> []"
    using parse_empty by auto
  have f: "\<not> fails (secretStorage l)"
      "\<not> fails (called (Get (key l)) (secretStorage l))" "fails (after_gets l)"
    using fails_schedule [OF assms(4)] by (simp_all add: after_gets_def)
  have g: "get l = (Inl BackendError, l\<lparr>secretStorage := called (Store (key l) s) (after_gets l)\<rparr>)"
    using get_legacy [of l s] assms(1-3) f ne by simp
  let ?l' = "l\<lparr>secretStorage := called (Store (key l) s) (after_gets l)\<rparr>"
  have retry: "fst (get ?l') = Inr (Some parsed)
      \<and> secrets (secretStorage (snd (get ?l'))) (key l) = Some s"
    if ok: "succeeds 3 (secretStorage ?l')"
  proof -
    have f': "\<not> fails (secretStorage ?l')"
        "\<not> fails (called (Get (key ?l')) (secretStorage ?l'))" "\<not> fails (after_gets ?l')"
      using ok
      by (simp_all add: after_gets_def
          succeeds_3 [where c = "Get (key l)" and d = "Get (legacyKey l)"])
    have "get ?l' = (Inr (Some parsed),
        ?l'\<lparr>secretStorage := (called (Store (key ?l') s) (after_gets ?l'))
            \<lparr>secrets := (secrets (secretStorage ?l'))(key ?l' \<mapsto> s)\<rparr>\<rparr>)"
      using get_legacy [of ?l' s] assms(1-3) f' ne by (simp add: after_gets_def)
    then show ?thesis by simp
  qed
  show ?thesis
    using retry by (simp add: g after_gets_def)
qed

theorem get_migration_write_failure_witness:
  "fst (get (example_ledger
        (example_backend [(js ''accounts-c-i-a'', js ''[\"X\"]'')] [False, False, True])))
      = Inl BackendError
   \<and> secrets (secretStorage (snd (get (example_ledger
        (example_backend [(js ''accounts-c-i-a'', js ''[\"X\"]'')] [False, False, True])))))
      = secrets (example_backend [(js ''accounts-c-i-a'', js ''[\"X\"]'')] [False, False, True])
   \<and> fst (get (snd (get (example_ledger
        (example_backend [(js ''accounts-c-i-a'', js ''[\"X\"]'')] [False, False, True])))))
      = Inr (Some (JArray [JString (js ''X'')]))"
proof -
  let ?b = "example_backend [(js ''accounts-c-i-a'', js ''[\"X\"]'')] [False, False, True]"
  let ?l = "example_ledger ?b"
  have h1: "secrets (secretStorage ?l) (key ?l) = None"
    by code_simp
  have h2: "secrets (secretStorage ?l) (legacyKey ?l) = Some (js ''[\"X\"]'')"
    by code_simp
  have h3: "JSON_parse (js ''[\"X\"]'') = Inr (JArray [JString (js ''X'')])"
    by (rule parse_X)
  have h4: "faults (secretStorage ?l) = False # False # True # []"
    by (simp add: example_ledger_def example_backend_def)
  have h5: "succeeds 3 (secretStorage (snd (get ?l)))"
    by code_simp
  have h6: "secretStorage ?l = ?b"
    by (simp add: example_ledger_def)
  from get_migration_write_failure [OF h1 h2 h3 h4] h5 h6 show ?thesis
    by simp
qed

text \<open>
  The claim as stated fails: only the legacy key is populated, the third backend call
  (the write) fails, and \<open>get()\<close> does not return the list \<open>["X"]\<close>.
\<close>

theorem get_migration_write_failure_counterexample:
  "secrets (example_backend [(js ''accounts-c-i-a'', js ''[\"X\"]'')] [False, False, True])
      (js ''accounts-c'') = None
   \<and> secrets (example_backend [(js ''accounts-c-i-a'', js ''[\"X\"]'')] [False, False, True])
      (js ''accounts-c-i-a'') = Some (js ''[\"X\"]'')
   \<and> JSON_parse (js ''[\"X\"]'') = Inr (JArray [JString (js ''X'')])
   \<and> fst (get (example_ledger
        (example_backend [(js ''accounts-c-i-a'', js ''[\"X\"]'')] [False, False, True])))
      = Inl BackendError
   \<and> fst (get (example_ledger
        (example_backend [(js ''accounts-c-i-a'', js ''[\"X\"]'')] [False, False, True])))
      \<noteq> Inr (Some (JArray [JString (js ''X'')]))"
  by code_simp

subsection \<open>C2: when the registry fires its change event\<close>

text \<open>
  C2, as amended. Let the ledger read of \<open>update()\<close> return a list (or absent, read as
  the empty list). Then \<open>update()\<close> succeeds, the cache becomes that list, and the event
  fires at most once. It does not fire exactly when the number of distinct cached
  identifiers equals the length of the fresh list and every fresh identifier is cached.
  For a fresh list without duplicates this means: the event fires if and only if the
  set of fresh identifiers differs from the set of cached identifiers, whatever the
  order, and whatever duplicates the cached list holds.
\<close>

theorem update_fires_iff_sets_differ:
  assumes "get (accountAccessSecretStorage r) = (Inr v, l')"
    and "nullish_list v = Some new_value"
  shows "fst (update r) = Inr ()
    \<and> this_value (snd (update r)) = new_value
    \<and> (fired (snd (update r)) = fired r + 1 \<or> fired (snd (update r)) = fired r)
    \<and> (fired (snd (update r)) = fired r \<longleftrightarrow>
          card (set (this_value r)) = length new_value \<and> set new_value \<subseteq> set (this_value r))
    \<and> (distinct new_value \<longrightarrow>
          (fired (snd (update r)) = fired r + 1 \<longleftrightarrow> set new_value \<noteq> set (this_value r)))"
proof -
  note u = update_result [OF assms]
  have d: "(card (set (this_value r)) = length new_value \<and> set new_value \<subseteq> set (this_value r))
      \<longleftrightarrow> set new_value = set (this_value r)" if "distinct new_value"
  proof
    assume a: "card (set (this_value r)) = length new_value \<and> set new_value \<subseteq> set (this_value r)"
    have "card (set new_value) = length new_value"
      using that by (rule distinct_card)
    with a have "card (set new_value) = card (set (this_value r))"
      by simp
    with a show "set new_value = set (this_value r)"
      by (simp add: card_subset_eq)
  next
    assume "set new_value = set (this_value r)"
    then show "card (set (this_value r)) = length new_value \<and> set new_value \<subseteq> set (this_value r)"
      using that distinct_card [of new_value] by simp
  qed
  show ?thesis
    using d by (auto simp add: u)
qed

theorem update_fires_iff_sets_differ_witness:
  "fired (snd (update (example_registry
        (example_backend [(js ''accounts-c'', js ''[\"X\"]'')] []) [js ''Y''])))
      = fired (example_registry
        (example_backend [(js ''accounts-c'', js ''[\"X\"]'')] []) [js ''Y'']) + 1
   \<and> this_value (snd (update (example_registry
        (example_backend [(js ''accounts-c'', js ''[\"X\"]'')] []) [js ''Y''])))
      = [js ''X'']
   \<and> fired (snd (update (example_registry
        (example_backend [(js ''accounts-c'', js ''[\"X\"]'')] []) [js ''X'', js ''X''])))
      = fired (example_registry
        (example_backend [(js ''accounts-c'', js ''[\"X\"]'')] []) [js ''X'', js ''X''])"
proof -
  let ?b = "example_backend [(js ''accounts-c'', js ''[\"X\"]'')] []"
  let ?r1 = "example_registry ?b [js ''Y'']"
  let ?r2 = "example_registry ?b [js ''X'', js ''X'']"
  let ?v = "Some (JArray [JString (js ''X'')])"
  have g: "fst (get (example_ledger ?b)) = Inr ?v"
    by code_simp
  have g1: "get (accountAccessSecretStorage ?r1) = (Inr ?v, snd (get (example_ledger ?b)))"
    and g2: "get (accountAccessSecretStorage ?r2) = (Inr ?v, snd (get (example_ledger ?b)))"
    using g by (simp_all add: example_registry_def prod_eq_iff)
  have n: "nullish_list ?v = Some [js ''X'']"
    by simp
  have d: "distinct [js ''X'']" "set [js ''X''] \<noteq> set (this_value ?r1)"
    by (simp_all add: example_registry_def js_def)
  have c: "card (set (this_value ?r2)) = length [js ''X'']
      \<and> set [js ''X''] \<subseteq> set (this_value ?r2)"
    by (simp add: example_registry_def)
  from update_fires_iff_sets_differ [OF g1 n] d
  have 1: "fired (snd (update ?r1)) = fired ?r1 + 1" "this_value (snd (update ?r1)) = [js ''X'']"
    by blast+
  from update_fires_iff_sets_differ [OF g2 n] c
  have 2: "fired (snd (update ?r2)) = fired ?r2"
    by blast
  from 1 2 show ?thesis
    by simp
qed

text \<open>
  The claim as stated fails for a fresh list with a duplicate. With \<open>["X"]\<close> cached and
  \<open>["X","X"]\<close> read, the sets are equal and the event fires. With \<open>["X","Y"]\<close> cached
  and \<open>["X","X"]\<close> read, the sets differ and the event does not fire.
\<close>

theorem update_fires_iff_sets_differ_counterexample:
  "fst (get (example_ledger (example_backend [(js ''accounts-c'', js ''[\"X\",\"X\"]'')] [])))
      = Inr (Some (JArray [JString (js ''X''), JString (js ''X'')]))
   \<and> set [js ''X'', js ''X''] = set [js ''X'']
   \<and> fired (snd (update (example_registry
        (example_backend [(js ''accounts-c'', js ''[\"X\",\"X\"]'')] []) [js ''X''])))
      = fired (example_registry
        (example_backend [(js ''accounts-c'', js ''[\"X\",\"X\"]'')] []) [js ''X'']) + 1
   \<and> set [js ''X'', js ''X''] \<noteq> set [js ''X'', js ''Y'']
   \<and> fired (snd (update (example_registry
        (example_backend [(js ''accounts-c'', js ''[\"X\",\"X\"]'')] []) [js ''X'', js ''Y''])))
      = fired (example_registry
        (example_backend [(js ''accounts-c'', js ''[\"X\",\"X\"]'')] []) [js ''X'', js ''Y''])"
  by code_simp

subsection \<open>C3: dual-write consistency\<close>

text \<open>
  C3. After a successful \<open>store(list)\<close> the current key and the legacy key both hold
  \<open>JSON.stringify(list)\<close>. Hence after a successful \<open>setAllowedAccess\<close> that made a
  \<open>Store\<close> call to the backend, both keys hold the string of that call, which is the
  serialisation of the cached list with the identifier appended (allow) or removed
  (deny).
\<close>

theorem dual_write_consistency:
  "(store l v = (Inr (), l')
    \<longrightarrow> secrets (secretStorage l') (key l') = Some (JSON_stringify v)
      \<and> secrets (secretStorage l') (legacyKey l') = Some (JSON_stringify v))
   \<and> (setAllowedAccess r a allowed = (Inr (), r')
        \<and> Store k s \<in> set (new_calls (backend r) (backend r'))
    \<longrightarrow> secrets (backend r') (key (accountAccessSecretStorage r')) = Some s
      \<and> secrets (backend r') (legacyKey (accountAccessSecretStorage r')) = Some s
      \<and> s = JSON_stringify (if allowed then this_value r @ [homeAccountId a]
              else filter (\<lambda>id. id \<noteq> homeAccountId a) (this_value r)))"
proof (intro conjI impI)
  assume a: "store l v = (Inr (), l')"
  then have "fst (store l v) = Inr ()" and l': "l' = snd (store l v)"
    by simp_all
  then have "secrets (secretStorage l')
      = (secrets (secretStorage l))(key l \<mapsto> JSON_stringify v, legacyKey l \<mapsto> JSON_stringify v)"
    using store_success [of l v] by simp
  then show "secrets (secretStorage l') (key l') = Some (JSON_stringify v)"
    and "secrets (secretStorage l') (legacyKey l') = Some (JSON_stringify v)"
    by (simp_all add: l' key_neq_legacyKey)
next
  assume a: "setAllowedAccess r a allowed = (Inr (), r')
        \<and> Store k s \<in> set (new_calls (backend r) (backend r'))"
  let ?v = "if allowed then this_value r @ [homeAccountId a]
            else filter (\<lambda>id. id \<noteq> homeAccountId a) (this_value r)"
  let ?l = "accountAccessSecretStorage r"
  from a have r': "r' = snd (setAllowedAccess r a allowed)"
    and ok: "fst (setAllowedAccess r a allowed) = Inr ()"
    by simp_all
  from a r' have st: "s = JSON_stringify ?v
    \<and> (if allowed then homeAccountId a \<notin> set (this_value r)
        else homeAccountId a \<in> set (this_value r)
          \<and> filter (\<lambda>id. id \<noteq> homeAccountId a) (this_value r) \<noteq> [])"
    using setAllowedAccess_stores [of k s r a allowed] by simp
  then have run: "setAllowedAccess r a allowed
      = (fst (store ?l ?v), r\<lparr>accountAccessSecretStorage := snd (store ?l ?v)\<rparr>)"
    by (cases allowed) (simp_all add: allow_absent deny_some_left)
  with ok have "fst (store ?l ?v) = Inr ()"
    by simp
  then have "secrets (secretStorage (snd (store ?l ?v)))
      = (secrets (secretStorage ?l))(key ?l \<mapsto> JSON_stringify ?v, legacyKey ?l \<mapsto> JSON_stringify ?v)"
    by (rule store_success)
  with st run r' show "secrets (backend r') (key (accountAccessSecretStorage r')) = Some s"
    and "secrets (backend r') (legacyKey (accountAccessSecretStorage r')) = Some s"
    by (simp_all add: key_neq_legacyKey)
  from st show "s = JSON_stringify ?v"
    by simp
qed

theorem dual_write_consistency_witness:
  "secrets (secretStorage (snd (store (example_ledger (example_backend [] [])) [js ''X''])))
      (js ''accounts-c'') = Some (js ''[\"X\"]'')
   \<and> secrets (secretStorage (snd (store (example_ledger (example_backend [] [])) [js ''X''])))
      (js ''accounts-c-i-a'') = Some (js ''[\"X\"]'')
   \<and> secrets (backend (snd (setAllowedAccess
        (example_registry (example_backend [] []) []) (account ''X'') True)))
      (js ''accounts-c'') = Some (js ''[\"X\"]'')
   \<and> secrets (backend (snd (setAllowedAccess
        (example_registry (example_backend [] []) []) (account ''X'') True)))
      (js ''accounts-c-i-a'') = Some (js ''[\"X\"]'')"
proof -
  let ?l = "example_ledger (example_backend [] [])"
  let ?r = "example_registry (example_backend [] []) []"
  let ?r' = "snd (setAllowedAccess ?r (account ''X'') True)"
  have "fst (store ?l [js ''X'']) = Inr ()"
    by code_simp
  then have h1: "store ?l [js ''X''] = (Inr (), snd (store ?l [js ''X'']))"
    by (simp add: prod_eq_iff)
  have "fst (setAllowedAccess ?r (account ''X'') True) = Inr ()"
    by code_simp
  then have h2: "setAllowedAccess ?r (account ''X'') True = (Inr (), ?r')"
    by (simp add: prod_eq_iff)
  have h3: "Store (js ''accounts-c'') (js ''[\"X\"]'') \<in> set (new_calls (backend ?r) (backend ?r'))"
    by code_simp
  have k: "key (snd (store ?l [js ''X''])) = js ''accounts-c''"
    "legacyKey (snd (store ?l [js ''X''])) = js ''accounts-c-i-a''"
    "key (accountAccessSecretStorage ?r') = js ''accounts-c''"
    "legacyKey (accountAccessSecretStorage ?r') = js ''accounts-c-i-a''"
    by code_simp+
  note t = dual_write_consistency [of ?l "[js ''X'']" "snd (store ?l [js ''X''])"
      ?r "account ''X''" True ?r' "js ''accounts-c''" "js ''[\"X\"]''"]
  from t h1 have a: "secrets (secretStorage (snd (store ?l [js ''X''])))
        (key (snd (store ?l [js ''X'']))) = Some (JSON_stringify [js ''X''])
      \<and> secrets (secretStorage (snd (store ?l [js ''X''])))
        (legacyKey (snd (store ?l [js ''X'']))) = Some (JSON_stringify [js ''X''])"
    by blast
  from t h2 h3 have b: "secrets (backend ?r') (key (accountAccessSecretStorage ?r'))
        = Some (js ''[\"X\"]'')
      \<and> secrets (backend ?r') (legacyKey (accountAccessSecretStorage ?r'))
        = Some (js ''[\"X\"]'')"
    by blast
  from a b show ?thesis
    unfolding k stringify_X by blast
qed

subsection \<open>C4: denying the last account deletes\<close>

text \<open>
  C4. When account \<open>a\<close> is the only member of the cached list, or more generally when
  the deny empties a non-empty cached list, the calls of \<open>setAllowedAccess(a, false)\<close>
  to the backend are the two deletes, of the current key and of the legacy key, and no
  write; if the operation succeeds both keys are absent afterwards. And no call of
  \<open>setAllowedAccess\<close>, whatever its arguments, writes the serialised empty list.
\<close>

theorem deny_last_account_deletes:
  "(set (this_value r) = {homeAccountId a}
      \<or> this_value r \<noteq> [] \<and> filter (\<lambda>id. id \<noteq> homeAccountId a) (this_value r) = []
    \<longrightarrow> new_calls (backend r) (backend (snd (setAllowedAccess r a False)))
          = [Delete (key (accountAccessSecretStorage r)),
             Delete (legacyKey (accountAccessSecretStorage r))]
      \<and> (fst (setAllowedAccess r a False) = Inr ()
          \<longrightarrow> secrets (backend (snd (setAllowedAccess r a False)))
                (key (accountAccessSecretStorage r)) = None
            \<and> secrets (backend (snd (setAllowedAccess r a False)))
                (legacyKey (accountAccessSecretStorage r)) = None))
   \<and> (\<forall>allowed k s.
        Store k s \<in> set (new_calls (backend r) (backend (snd (setAllowedAccess r a allowed))))
        \<longrightarrow> s \<noteq> JSON_stringify [])"
proof (intro conjI impI allI)
  let ?l = "accountAccessSecretStorage r"
  assume "set (this_value r) = {homeAccountId a}
      \<or> this_value r \<noteq> [] \<and> filter (\<lambda>id. id \<noteq> homeAccountId a) (this_value r) = []"
  then have only: "set (this_value r) = {homeAccountId a}"
    by (simp add: only_member_iff)
  then have "homeAccountId a \<in> set (this_value r)"
    and "filter (\<lambda>id. id \<noteq> homeAccountId a) (this_value r) = []"
    by (simp_all add: only_member_iff [symmetric])
  then have run: "setAllowedAccess r a False
      = (fst (delete ?l), r\<lparr>accountAccessSecretStorage := snd (delete ?l)\<rparr>)"
    by (rule deny_none_left)
  show "new_calls (backend r) (backend (snd (setAllowedAccess r a False)))
          = [Delete (key ?l), Delete (legacyKey ?l)]"
    by (simp add: run backend_def delete_calls)
  assume "fst (setAllowedAccess r a False) = Inr ()"
  then have "fst (delete ?l) = Inr ()"
    by (simp add: run)
  then have "secrets (secretStorage (snd (delete ?l)))
      = (secrets (secretStorage ?l))(key ?l := None, legacyKey ?l := None)"
    by (rule delete_success)
  then show "secrets (backend (snd (setAllowedAccess r a False))) (key ?l) = None"
    and "secrets (backend (snd (setAllowedAccess r a False))) (legacyKey ?l) = None"
    by (simp_all add: run)
next
  fix allowed k s
  assume a: "Store k s \<in> set (new_calls (backend r) (backend (snd (setAllowedAccess r a allowed))))"
  let ?v = "if allowed then this_value r @ [homeAccountId a]
            else filter (\<lambda>id. id \<noteq> homeAccountId a) (this_value r)"
  from setAllowedAccess_stores [OF a] have "s = JSON_stringify ?v" and "?v \<noteq> []"
    by (simp_all split: if_splits)
  then show "s \<noteq> JSON_stringify []"
    using stringify_nonempty by (cases ?v) auto
qed

theorem deny_last_account_deletes_witness:
  "new_calls
      (backend (example_registry (example_backend
        [(js ''accounts-c'', js ''[\"X\"]''), (js ''accounts-c-i-a'', js ''[\"X\"]'')] [])
        [js ''X'']))
      (backend (snd (setAllowedAccess (example_registry (example_backend
        [(js ''accounts-c'', js ''[\"X\"]''), (js ''accounts-c-i-a'', js ''[\"X\"]'')] [])
        [js ''X'']) (account ''X'') False)))
      = [Delete (js ''accounts-c''), Delete (js ''accounts-c-i-a'')]
   \<and> secrets (backend (snd (setAllowedAccess (example_registry (example_backend
        [(js ''accounts-c'', js ''[\"X\"]''), (js ''accounts-c-i-a'', js ''[\"X\"]'')] [])
        [js ''X'']) (account ''X'') False))) (js ''accounts-c'') = None
   \<and> secrets (backend (snd (setAllowedAccess (example_registry (example_backend
        [(js ''accounts-c'', js ''[\"X\"]''), (js ''accounts-c-i-a'', js ''[\"X\"]'')] [])
        [js ''X'']) (account ''X'') False))) (js ''accounts-c-i-a'') = None
   \<and> js ''[\"X\",\"Y\"]'' \<noteq> JSON_stringify []"
proof -
  let ?r = "example_registry (example_backend
        [(js ''accounts-c'', js ''[\"X\"]''), (js ''accounts-c-i-a'', js ''[\"X\"]'')] [])
        [js ''X'']"
  have h1: "set (this_value ?r) = {homeAccountId (account ''X'')}"
    by (simp add: example_registry_def account_def)
  have h2: "fst (setAllowedAccess ?r (account ''X'') False) = Inr ()"
    by code_simp
  have h3: "Store (js ''accounts-c'') (js ''[\"X\",\"Y\"]'')
      \<in> set (new_calls (backend ?r) (backend (snd (setAllowedAccess ?r (account ''Y'') True))))"
    by code_simp
  have k: "key (accountAccessSecretStorage ?r) = js ''accounts-c''"
    "legacyKey (accountAccessSecretStorage ?r) = js ''accounts-c-i-a''"
    by (simp_all add: example_registry_def example_key example_legacyKey)
  have a: "js ''[\"X\",\"Y\"]'' \<noteq> JSON_stringify []"
    using deny_last_account_deletes [of ?r "account ''Y''"] h3 by blast
  note t = deny_last_account_deletes [of ?r "account ''X''"]
  from t h1 h2 have b: "new_calls (backend ?r) (backend (snd (setAllowedAccess ?r (account ''X'') False)))
        = [Delete (key (accountAccessSecretStorage ?r)),
           Delete (legacyKey (accountAccessSecretStorage ?r))]
      \<and> secrets (backend (snd (setAllowedAccess ?r (account ''X'') False)))
           (key (accountAccessSecretStorage ?r)) = None
      \<and> secrets (backend (snd (setAllowedAccess ?r (account ''X'') False)))
           (legacyKey (accountAccessSecretStorage ?r)) = None"
    by blast
  from a b show ?thesis
    unfolding k by blast
qed

subsection \<open>C5: legacy migration\<close>

text \<open>
  C5. Let no backend call of this \<open>get()\<close> fail. When the current key is absent and the
  legacy key holds a string that deserializes to the list \<open>xs\<close>, \<open>get()\<close> returns that
  list, its calls to the backend are the two reads and one write of the same raw string
  to the current key (which is not the legacy key), and afterwards the backend differs
  from before at the current key only. When both keys are absent, \<open>get()\<close> returns
  absent after the two reads and the backend holds what it held.
\<close>

theorem get_legacy_migration:
  "(secrets (secretStorage l) (key l) = None
      \<and> secrets (secretStorage l) (legacyKey l) = Some s
      \<and> JSON_parse s = Inr (JArray (map JString xs))
      \<and> succeeds 3 (secretStorage l)
    \<longrightarrow> fst (get l) = Inr (Some (JArray (map JString xs)))
      \<and> nullish_list (Some (JArray (map JString xs))) = Some xs
      \<and> new_calls (secretStorage l) (secretStorage (snd (get l)))
          = [Get (key l), Get (legacyKey l), Store (key l) s]
      \<and> key l \<noteq> legacyKey l
      \<and> secrets (secretStorage (snd (get l))) = (secrets (secretStorage l))(key l \<mapsto> s))
   \<and> (secrets (secretStorage l) (key l) = None
      \<and> secrets (secretStorage l) (legacyKey l) = None
      \<and> succeeds 2 (secretStorage l)
    \<longrightarrow> fst (get l) = Inr None
      \<and> new_calls (secretStorage l) (secretStorage (snd (get l)))
          = [Get (key l), Get (legacyKey l)]
      \<and> secrets (secretStorage (snd (get l))) = secrets (secretStorage l))"
proof (intro conjI impI)
  assume a: "secrets (secretStorage l) (key l) = None
      \<and> secrets (secretStorage l) (legacyKey l) = Some s
      \<and> JSON_parse s = Inr (JArray (map JString xs))
      \<and> succeeds 3 (secretStorage l)"
  then have ne: "s \<noteq> []"
    using parse_empty by auto
  from a have f: "\<not> fails (secretStorage l)"
      "\<not> fails (called (Get (key l)) (secretStorage l))" "\<not> fails (after_gets l)"
    by (simp_all add: after_gets_def
        succeeds_3 [where c = "Get (key l)" and d = "Get (legacyKey l)"])
  have g: "get l = (Inr (Some (JArray (map JString xs))),
      l\<lparr>secretStorage := (called (Store (key l) s) (after_gets l))
            \<lparr>secrets := (secrets (secretStorage l))(key l \<mapsto> s)\<rparr>\<rparr>)"
    using get_legacy [of l s] a f ne by simp
  show "fst (get l) = Inr (Some (JArray (map JString xs)))"
    by (simp add: g)
  show "nullish_list (Some (JArray (map JString xs))) = Some xs"
    by (simp add: strings_of_JString)
  show "new_calls (secretStorage l) (secretStorage (snd (get l)))
          = [Get (key l), Get (legacyKey l), Store (key l) s]"
    by (simp add: g after_gets_def)
  show "key l \<noteq> legacyKey l"
    by (rule key_neq_legacyKey)
  show "secrets (secretStorage (snd (get l))) = (secrets (secretStorage l))(key l \<mapsto> s)"
    by (simp add: g)
next
  assume a: "secrets (secretStorage l) (key l) = None
      \<and> secrets (secretStorage l) (legacyKey l) = None
      \<and> succeeds 2 (secretStorage l)"
  then have f: "\<not> fails (secretStorage l)"
      "\<not> fails (called (Get (key l)) (secretStorage l))"
    by (simp_all add: succeeds_2 [where c = "Get (key l)"])
  have g: "get l = (Inr None, l\<lparr>secretStorage := after_gets l\<rparr>)"
    using get_absent [of l] a f by simp
  show "fst (get l) = Inr None"
    by (simp add: g)
  show "new_calls (secretStorage l) (secretStorage (snd (get l)))
      = [Get (key l), Get (legacyKey l)]"
    by (simp add: g after_gets_def)
  show "secrets (secretStorage (snd (get l))) = secrets (secretStorage l)"
    by (simp add: g after_gets_def)
qed

text \<open>The spec's example: only the legacy key is populated, with \<open>["X"]\<close>; and the empty
  backend.\<close>

theorem get_legacy_migration_witness:
  "fst (get (example_ledger (example_backend [(js ''accounts-c-i-a'', js ''[\"X\"]'')] [])))
      = Inr (Some (JArray [JString (js ''X'')]))
   \<and> secrets (secretStorage (snd (get (example_ledger
        (example_backend [(js ''accounts-c-i-a'', js ''[\"X\"]'')] []))))) (js ''accounts-c'')
      = Some (js ''[\"X\"]'')
   \<and> fst (get (example_ledger (example_backend [] []))) = Inr None"
proof -
  let ?b = "example_backend [(js ''accounts-c-i-a'', js ''[\"X\"]'')] []"
  have k: "secrets (secretStorage (example_ledger ?b)) (key (example_ledger ?b)) = None"
    by (simp add: example_key example_keys_differ [symmetric])
       (simp add: example_ledger_def example_backend_def example_keys_differ)
  have lk: "secrets (secretStorage (example_ledger ?b)) (legacyKey (example_ledger ?b))
      = Some (js ''[\"X\"]'')"
    by (simp add: example_legacyKey) (simp add: example_ledger_def example_backend_def)
  have p: "JSON_parse (js ''[\"X\"]'') = Inr (JArray (map JString [js ''X'']))"
    by (simp add: parse_X)
  have s: "succeeds 3 (secretStorage (example_ledger ?b))"
    by (simp add: example_ledger_def)
  have e: "secrets (secretStorage (example_ledger (example_backend [] [])))
        (key (example_ledger (example_backend [] []))) = None
      \<and> secrets (secretStorage (example_ledger (example_backend [] [])))
        (legacyKey (example_ledger (example_backend [] []))) = None
      \<and> succeeds 2 (secretStorage (example_ledger (example_backend [] [])))"
    by (simp add: example_ledger_def example_backend_def succeeds_def)
  from get_legacy_migration [of "example_ledger ?b" "js ''[\"X\"]''" "[js ''X'']"] k lk p s
  have 1: "fst (get (example_ledger ?b)) = Inr (Some (JArray [JString (js ''X'')]))"
    and 2: "secrets (secretStorage (snd (get (example_ledger ?b))))
      = (secrets (secretStorage (example_ledger ?b)))(key (example_ledger ?b) \<mapsto> js ''[\"X\"]'')"
    by simp_all
  from get_legacy_migration [of "example_ledger (example_backend [] [])"] e
  have 3: "fst (get (example_ledger (example_backend [] []))) = Inr None"
    by blast
  from 1 2 3 show ?thesis
    by (simp add: example_key)
qed

subsection \<open>C6: malformed stored values\<close>

text \<open>
  C6, as amended. Let \<open>s\<close> be a non-empty string that is not JSON text. When the key
  read by \<open>get()\<close> holds \<open>s\<close> (the current key, or the legacy key when the current key is
  absent or empty) and the reads succeed, \<open>get()\<close> throws \<open>SyntaxError\<close> and changes no
  stored string; \<open>update()\<close> passes the error on, keeps its cache and fires nothing. A
  stored string that is JSON text is returned as parsed, whatever its shape: \<open>get()\<close>
  makes no check that the value is an array of strings.
\<close>

theorem get_malformed_throws:
  assumes "JSON_parse s = Inl SyntaxError" and "s \<noteq> []"
  shows "(secrets (secretStorage l) (key l) = Some s \<and> succeeds 1 (secretStorage l)
        \<longrightarrow> fst (get l) = Inl SyntaxError
          \<and> secrets (secretStorage (snd (get l))) = secrets (secretStorage l))
    \<and> (truthy (secrets (secretStorage l) (key l)) = None
          \<and> secrets (secretStorage l) (legacyKey l) = Some s \<and> succeeds 2 (secretStorage l)
        \<longrightarrow> fst (get l) = Inl SyntaxError
          \<and> new_calls (secretStorage l) (secretStorage (snd (get l)))
              = [Get (key l), Get (legacyKey l)]
          \<and> secrets (secretStorage (snd (get l))) = secrets (secretStorage l))
    \<and> (accountAccessSecretStorage r = l \<and> fst (get l) = Inl SyntaxError
        \<longrightarrow> fst (update r) = Inl SyntaxError
          \<and> this_value (snd (update r)) = this_value r
          \<and> fired (snd (update r)) = fired r)
    \<and> (secrets (secretStorage l) (key l) = Some s' \<and> s' \<noteq> [] \<and> JSON_parse s' = Inr v
          \<and> succeeds 1 (secretStorage l)
        \<longrightarrow> fst (get l) = Inr (Some v))"
proof (intro conjI impI)
  assume a: "secrets (secretStorage l) (key l) = Some s \<and> succeeds 1 (secretStorage l)"
  then have "\<not> fails (secretStorage l)"
    using succeeds_1 by blast
  with a have "get l = (Inl SyntaxError, l\<lparr>secretStorage := called (Get (key l)) (secretStorage l)\<rparr>)"
    using get_current [of l s] assms by simp
  then show "fst (get l) = Inl SyntaxError"
    and "secrets (secretStorage (snd (get l))) = secrets (secretStorage l)"
    by simp_all
next
  assume a: "truthy (secrets (secretStorage l) (key l)) = None
          \<and> secrets (secretStorage l) (legacyKey l) = Some s \<and> succeeds 2 (secretStorage l)"
  then have f: "\<not> fails (secretStorage l)"
      "\<not> fails (called (Get (key l)) (secretStorage l))"
    by (simp_all add: succeeds_2 [where c = "Get (key l)"])
  have g: "get l = (Inl SyntaxError, l\<lparr>secretStorage := after_gets l\<rparr>)"
    using get_legacy [of l s] a f assms by simp
  show "fst (get l) = Inl SyntaxError"
    by (simp add: g)
  show "new_calls (secretStorage l) (secretStorage (snd (get l)))
      = [Get (key l), Get (legacyKey l)]"
    by (simp add: g after_gets_def)
  show "secrets (secretStorage (snd (get l))) = secrets (secretStorage l)"
    by (simp add: g after_gets_def)
next
  assume a: "accountAccessSecretStorage r = l \<and> fst (get l) = Inl SyntaxError"
  then show "fst (update r) = Inl SyntaxError"
    and "this_value (snd (update r)) = this_value r"
    and "fired (snd (update r)) = fired r"
    using update_get_failure [of r SyntaxError] by simp_all
next
  assume a: "secrets (secretStorage l) (key l) = Some s' \<and> s' \<noteq> [] \<and> JSON_parse s' = Inr v
          \<and> succeeds 1 (secretStorage l)"
  then have "\<not> fails (secretStorage l)"
    using succeeds_1 by blast
  with a show "fst (get l) = Inr (Some v)"
    using get_current [of l s'] by simp
qed

theorem get_malformed_throws_witness:
  "fst (get (example_ledger (example_backend [(js ''accounts-c'', js ''[\"X\"'')] [])))
      = Inl SyntaxError
   \<and> fst (get (example_ledger (example_backend [(js ''accounts-c-i-a'', js ''[\"X\"'')] [])))
      = Inl SyntaxError
   \<and> this_value (snd (update (example_registry
        (example_backend [(js ''accounts-c'', js ''[\"X\"'')] []) [js ''Y''])))
      = [js ''Y'']
   \<and> fst (get (example_ledger (example_backend [(js ''accounts-c'', js ''{}'')] [])))
      = Inr (Some (JObject []))"
proof -
  let ?s = "js ''[\"X\"''"
  let ?l1 = "example_ledger (example_backend [(js ''accounts-c'', ?s)] [])"
  let ?l2 = "example_ledger (example_backend [(js ''accounts-c-i-a'', ?s)] [])"
  let ?l3 = "example_ledger (example_backend [(js ''accounts-c'', js ''{}'')] [])"
  let ?r = "example_registry (example_backend [(js ''accounts-c'', ?s)] []) [js ''Y'']"
  have p: "JSON_parse ?s = Inl SyntaxError" "?s \<noteq> []"
    by code_simp+
  have h1: "secrets (secretStorage ?l1) (key ?l1) = Some ?s \<and> succeeds 1 (secretStorage ?l1)"
    by code_simp
  have h2: "truthy (secrets (secretStorage ?l2) (key ?l2)) = None
      \<and> secrets (secretStorage ?l2) (legacyKey ?l2) = Some ?s \<and> succeeds 2 (secretStorage ?l2)"
    by code_simp
  have h3: "accountAccessSecretStorage ?r = ?l1"
    by (simp add: example_registry_def)
  have h4: "secrets (secretStorage ?l3) (key ?l3) = Some (js ''{}'') \<and> js ''{}'' \<noteq> []
      \<and> JSON_parse (js ''{}'') = Inr (JObject []) \<and> succeeds 1 (secretStorage ?l3)"
    by code_simp
  have 1: "fst (get ?l1) = Inl SyntaxError"
    using get_malformed_throws [OF p, of ?l1] h1 by blast
  have 2: "fst (get ?l2) = Inl SyntaxError"
    using get_malformed_throws [OF p, of ?l2] h2 by blast
  have 3: "this_value (snd (update ?r)) = this_value ?r"
    using get_malformed_throws [OF p, of ?l1 ?r] h3 1 by blast
  have 4: "fst (get ?l3) = Inr (Some (JObject []))"
    using get_malformed_throws [OF p, of ?l3 _ "js ''{}''" "JObject []"] h4 by blast
  from 1 2 3 4 show ?thesis
    by (simp add: example_registry_def)
qed

text \<open>
  The claim as stated fails: the stored strings \<open>null\<close> and \<open>42\<close> are not arrays of
  strings, and \<open>get()\<close> returns their values without an error. After \<open>null\<close> the
  registry's \<open>update()\<close> succeeds with the empty list as its cache.
\<close>

theorem get_malformed_throws_counterexample:
  "JSON_parse (js ''null'') = Inr JNull
   \<and> fst (get (example_ledger (example_backend [(js ''accounts-c'', js ''null'')] [])))
       = Inr (Some JNull)
   \<and> fst (update (example_registry (example_backend [(js ''accounts-c'', js ''null'')] []) []))
       = Inr ()
   \<and> this_value (snd (update
        (example_registry (example_backend [(js ''accounts-c'', js ''null'')] []) []))) = []
   \<and> fst (get (example_ledger (example_backend [(js ''accounts-c'', js ''42'')] [])))
       = Inr (Some (JNumber (js ''42'')))"
  by code_simp

subsection \<open>C7: allowing twice\<close>

text \<open>
  C7. Let \<open>setAllowedAccess(a, true)\<close> succeed twice in sequence. Then the backend holds
  after the second call what it held after the first. If the identifier was cached,
  neither call does anything. If it was not, the first call leaves under both keys the
  serialisation of the cached list with the identifier appended, in which the
  identifier occurs exactly once, and which has no duplicate when the cached list had
  none. If moreover the registry refreshes its cache in between (\<open>update()\<close>, with its
  read succeeding), the cache becomes that list and the second call does nothing.
\<close>

theorem allow_twice:
  assumes "setAllowedAccess r a True = (Inr (), r1)"
    and "setAllowedAccess r1 a True = (Inr (), r2)"
  shows "secrets (backend r2) = secrets (backend r1)
    \<and> (homeAccountId a \<in> set (this_value r) \<longrightarrow> r1 = r \<and> r2 = r)
    \<and> (homeAccountId a \<notin> set (this_value r) \<longrightarrow>
          secrets (backend r1) (key (accountAccessSecretStorage r))
            = Some (JSON_stringify (this_value r @ [homeAccountId a]))
        \<and> secrets (backend r1) (legacyKey (accountAccessSecretStorage r))
            = Some (JSON_stringify (this_value r @ [homeAccountId a]))
        \<and> count_list (this_value r @ [homeAccountId a]) (homeAccountId a) = 1
        \<and> (distinct (this_value r) \<longrightarrow> distinct (this_value r @ [homeAccountId a]))
        \<and> (succeeds 1 (backend r1) \<longrightarrow>
              fst (update r1) = Inr ()
            \<and> this_value (snd (update r1)) = this_value r @ [homeAccountId a]
            \<and> secrets (backend (snd (update r1))) = secrets (backend r1)
            \<and> setAllowedAccess (snd (update r1)) a True = (Inr (), snd (update r1))))"
proof (cases "homeAccountId a \<in> set (this_value r)")
  case True
  with assms(1) have "r1 = r"
    by (simp add: allow_present)
  moreover from this True assms(2) have "r2 = r"
    by (simp add: allow_present)
  ultimately show ?thesis
    using True by simp
next
  case False
  let ?l = "accountAccessSecretStorage r"
  let ?v = "this_value r @ [homeAccountId a]"
  let ?s = "JSON_stringify ?v"
  from assms(1) False have r1: "r1 = r\<lparr>accountAccessSecretStorage := snd (store ?l ?v)\<rparr>"
    and ok1: "fst (store ?l ?v) = Inr ()"
    by (simp_all add: allow_absent)
  have s1: "secrets (backend r1) = (secrets (secretStorage ?l))(key ?l \<mapsto> ?s, legacyKey ?l \<mapsto> ?s)"
    using store_success [OF ok1] by (simp add: r1)
  let ?l1 = "accountAccessSecretStorage r1"
  have k1: "key ?l1 = key ?l" "legacyKey ?l1 = legacyKey ?l"
    by (simp_all add: r1)
  have c1: "this_value r1 = this_value r"
    by (simp add: r1)
  from assms(2) False c1 have r2: "r2 = r1\<lparr>accountAccessSecretStorage := snd (store ?l1 ?v)\<rparr>"
    and ok2: "fst (store ?l1 ?v) = Inr ()"
    by (simp_all add: allow_absent)
  have "secrets (backend r2) = (secrets (backend r1))(key ?l \<mapsto> ?s, legacyKey ?l \<mapsto> ?s)"
    using store_success [OF ok2] by (simp add: r2 k1 backend_def)
  then have same: "secrets (backend r2) = secrets (backend r1)"
    by (simp add: s1)
  have refresh: "fst (update r1) = Inr ()
      \<and> this_value (snd (update r1)) = ?v
      \<and> secrets (backend (snd (update r1))) = secrets (backend r1)
      \<and> setAllowedAccess (snd (update r1)) a True = (Inr (), snd (update r1))"
    if ok: "succeeds 1 (backend r1)"
  proof -
    have nf: "\<not> fails (secretStorage ?l1)"
      using ok succeeds_1 by (simp add: backend_def)
    have "truthy (secrets (secretStorage ?l1) (key ?l1)) = Some ?s"
      using s1 by (simp add: backend_def k1 key_neq_legacyKey stringify_not_empty)
    then have g: "get ?l1 = (Inr (Some (JArray (map JString ?v))),
        ?l1\<lparr>secretStorage := called (Get (key ?l1)) (secretStorage ?l1)\<rparr>)"
      using get_current [OF nf] by (simp add: parse_stringify)
    have n: "nullish_list (Some (JArray (map JString ?v))) = Some ?v"
      using strings_of_JString [of ?v] by (simp only: nullish_list.simps)
    note u = update_result [OF g n]
    have "setAllowedAccess (snd (update r1)) a True = (Inr (), snd (update r1))"
      by (rule allow_present) (simp add: u)
    then show ?thesis
      by (simp add: u backend_def)
  qed
  show ?thesis
    using False same s1 refresh by (simp add: count_list_append_absent key_neq_legacyKey)
qed

theorem allow_twice_witness:
  "secrets (backend (snd (setAllowedAccess (snd (setAllowedAccess
        (example_registry (example_backend [] []) []) (account ''X'') True)) (account ''X'') True)))
      = secrets (backend (snd (setAllowedAccess
        (example_registry (example_backend [] []) []) (account ''X'') True)))
   \<and> secrets (backend (snd (setAllowedAccess
        (example_registry (example_backend [] []) []) (account ''X'') True))) (js ''accounts-c'')
      = Some (js ''[\"X\"]'')
   \<and> this_value (snd (update (snd (setAllowedAccess
        (example_registry (example_backend [] []) []) (account ''X'') True))))
      = [js ''X'']"
proof -
  let ?r = "example_registry (example_backend [] []) []"
  let ?a = "account ''X''"
  let ?r1 = "snd (setAllowedAccess ?r ?a True)"
  let ?r2 = "snd (setAllowedAccess ?r1 ?a True)"
  have "fst (setAllowedAccess ?r ?a True) = Inr ()"
    by code_simp
  then have h1: "setAllowedAccess ?r ?a True = (Inr (), ?r1)"
    by (simp add: prod_eq_iff)
  have "fst (setAllowedAccess ?r1 ?a True) = Inr ()"
    by code_simp
  then have h2: "setAllowedAccess ?r1 ?a True = (Inr (), ?r2)"
    by (simp add: prod_eq_iff)
  have h3: "homeAccountId ?a \<notin> set (this_value ?r)"
    by (simp add: example_registry_def)
  have h4: "succeeds 1 (backend ?r1)"
    by code_simp
  have k: "key (accountAccessSecretStorage ?r) = js ''accounts-c''"
    "this_value ?r @ [homeAccountId ?a] = [js ''X'']"
    by (simp_all add: example_registry_def example_key account_def)
  note t = allow_twice [OF h1 h2]
  from t have a: "secrets (backend ?r2) = secrets (backend ?r1)"
    by blast
  from t h3 h4 have b: "secrets (backend ?r1) (key (accountAccessSecretStorage ?r))
        = Some (JSON_stringify (this_value ?r @ [homeAccountId ?a]))
      \<and> this_value (snd (update ?r1)) = this_value ?r @ [homeAccountId ?a]"
    by blast
  from a b show ?thesis
    unfolding k stringify_X by blast
qed

subsection \<open>C8: denying an account that is not allowed\<close>

text \<open>
  C8. When the identifier of account \<open>a\<close> is not in the cached list,
  \<open>setAllowedAccess(a, false)\<close> succeeds and returns the registry unchanged: the stored
  strings, the cache, and the record of backend calls, to which nothing is added.
\<close>

theorem deny_absent_is_noop:
  assumes "homeAccountId a \<notin> set (this_value r)"
  shows "setAllowedAccess r a False = (Inr (), r)
    \<and> new_calls (backend r) (backend (snd (setAllowedAccess r a False))) = []"
  using assms by (simp add: deny_absent)

theorem deny_absent_is_noop_witness:
  "setAllowedAccess
      (example_registry (example_backend [(js ''accounts-c'', js ''[\"X\"]'')] []) [js ''X''])
      (account ''Y'') False
    = (Inr (),
       example_registry (example_backend [(js ''accounts-c'', js ''[\"X\"]'')] []) [js ''X''])"
proof -
  let ?r = "example_registry (example_backend [(js ''accounts-c'', js ''[\"X\"]'')] []) [js ''X'']"
  have h: "homeAccountId (account ''Y'') \<notin> set (this_value ?r)"
    by (simp add: example_registry_def account_def js_def)
  from deny_absent_is_noop [OF h] show ?thesis
    by simp
qed

subsection \<open>C9: queries before initialisation\<close>


subsection \<open>C10: empty strings count as absent\<close>

text \<open>
  C10. Let the backend calls succeed. When each key is absent or holds the empty
  string, \<open>get()\<close> reads both keys, returns absent and writes nothing. When the current
  key holds the empty string and the legacy key a non-empty string, \<open>get()\<close> reads the
  current key and then the legacy key, and its result is the legacy value's
  deserialisation. \<open>JSON.parse\<close> of the empty string throws, so the absent result shows
  that no empty string was given to it.
\<close>

theorem get_empty_string_is_absent:
  "((secrets (secretStorage l) (key l) = Some [] \<or> secrets (secretStorage l) (key l) = None)
      \<and> (secrets (secretStorage l) (legacyKey l) = Some []
          \<or> secrets (secretStorage l) (legacyKey l) = None)
      \<and> succeeds 2 (secretStorage l)
    \<longrightarrow> fst (get l) = Inr None
      \<and> new_calls (secretStorage l) (secretStorage (snd (get l)))
          = [Get (key l), Get (legacyKey l)]
      \<and> secrets (secretStorage (snd (get l))) = secrets (secretStorage l))
   \<and> (secrets (secretStorage l) (key l) = Some []
      \<and> secrets (secretStorage l) (legacyKey l) = Some s \<and> s \<noteq> []
      \<and> succeeds 3 (secretStorage l)
    \<longrightarrow> fst (get l) = (case JSON_parse s of Inl e \<Rightarrow> Inl e | Inr v \<Rightarrow> Inr (Some v))
      \<and> take 2 (new_calls (secretStorage l) (secretStorage (snd (get l))))
          = [Get (key l), Get (legacyKey l)])
   \<and> JSON_parse [] = Inl SyntaxError"
proof (intro conjI impI)
  assume a: "(secrets (secretStorage l) (key l) = Some [] \<or> secrets (secretStorage l) (key l) = None)
      \<and> (secrets (secretStorage l) (legacyKey l) = Some []
          \<or> secrets (secretStorage l) (legacyKey l) = None)
      \<and> succeeds 2 (secretStorage l)"
  then have f: "\<not> fails (secretStorage l)"
      "\<not> fails (called (Get (key l)) (secretStorage l))"
    by (simp_all add: succeeds_2 [where c = "Get (key l)"])
  from a have t: "truthy (secrets (secretStorage l) (key l)) = None"
      "truthy (secrets (secretStorage l) (legacyKey l)) = None"
    by auto
  have g: "get l = (Inr None, l\<lparr>secretStorage := after_gets l\<rparr>)"
    using get_absent [of l] t f by simp
  show "fst (get l) = Inr None"
    by (simp add: g)
  show "new_calls (secretStorage l) (secretStorage (snd (get l)))
      = [Get (key l), Get (legacyKey l)]"
    by (simp add: g after_gets_def)
  show "secrets (secretStorage (snd (get l))) = secrets (secretStorage l)"
    by (simp add: g after_gets_def)
next
  assume a: "secrets (secretStorage l) (key l) = Some []
      \<and> secrets (secretStorage l) (legacyKey l) = Some s \<and> s \<noteq> []
      \<and> succeeds 3 (secretStorage l)"
  then have f: "\<not> fails (secretStorage l)"
      "\<not> fails (called (Get (key l)) (secretStorage l))" "\<not> fails (after_gets l)"
    by (simp_all add: after_gets_def
        succeeds_3 [where c = "Get (key l)" and d = "Get (legacyKey l)"])
  have g: "get l =
    (case JSON_parse s of
       Inl e \<Rightarrow> (Inl e, l\<lparr>secretStorage := after_gets l\<rparr>)
     | Inr parsed \<Rightarrow>
         (Inr (Some parsed),
               l\<lparr>secretStorage := (called (Store (key l) s) (after_gets l))
                    \<lparr>secrets := (secrets (secretStorage l))(key l \<mapsto> s)\<rparr>\<rparr>))"
    using get_legacy [of l s] a f by (simp split: sum.split)
  show "fst (get l) = (case JSON_parse s of Inl e \<Rightarrow> Inl e | Inr v \<Rightarrow> Inr (Some v))"
    by (simp add: g split: sum.split)
  show "take 2 (new_calls (secretStorage l) (secretStorage (snd (get l))))
          = [Get (key l), Get (legacyKey l)]"
    by (simp add: g after_gets_def split: sum.split)
next
  show "JSON_parse [] = Inl SyntaxError"
    by (rule parse_empty)
qed

theorem get_empty_string_is_absent_witness:
  "fst (get (example_ledger
        (example_backend [(js ''accounts-c'', []), (js ''accounts-c-i-a'', [])] [])))
      = Inr None
   \<and> fst (get (example_ledger
        (example_backend [(js ''accounts-c'', []), (js ''accounts-c-i-a'', js ''[\"X\"]'')] [])))
      = Inr (Some (JArray [JString (js ''X'')]))"
proof -
  let ?l1 = "example_ledger
    (example_backend [(js ''accounts-c'', []), (js ''accounts-c-i-a'', [])] [])"
  let ?l2 = "example_ledger
    (example_backend [(js ''accounts-c'', []), (js ''accounts-c-i-a'', js ''[\"X\"]'')] [])"
  have h1: "(secrets (secretStorage ?l1) (key ?l1) = Some []
        \<or> secrets (secretStorage ?l1) (key ?l1) = None)
      \<and> (secrets (secretStorage ?l1) (legacyKey ?l1) = Some []
        \<or> secrets (secretStorage ?l1) (legacyKey ?l1) = None)
      \<and> succeeds 2 (secretStorage ?l1)"
    by code_simp
  have h2: "secrets (secretStorage ?l2) (key ?l2) = Some []
      \<and> secrets (secretStorage ?l2) (legacyKey ?l2) = Some (js ''[\"X\"]'')
      \<and> js ''[\"X\"]'' \<noteq> [] \<and> succeeds 3 (secretStorage ?l2)"
    by code_simp
  have 1: "fst (get ?l1) = Inr None"
    using get_empty_string_is_absent [of ?l1] h1 by blast
  have 2: "fst (get ?l2)
      = (case JSON_parse (js ''[\"X\"]'') of Inl e \<Rightarrow> Inl e | Inr v \<Rightarrow> Inr (Some v))"
    using get_empty_string_is_absent [of ?l2 "js ''[\"X\"]''"] h2 by blast
  from 1 2 show ?thesis
    by (simp add: parse_X)
qed

end
